theory Spec2Isabelle
  imports Main "HOL-Library.Word" "HOL-Library.Signed_Division"
begin

unbundle bit_operations_syntax

section \<open>Go values\<close>

text \<open>
  The generator is written in Go. An \<open>int64\<close> is a 64-bit word: \<open>+\<close>, \<open>-\<close> and \<open>*\<close> wrap
  around, comparisons are the signed ones (\<open>\<le>s\<close>, \<open><s\<close>), \<open>>>\<close> is the arithmetic shift
  \<open>signed_drop_bit\<close>, \<open>&^\<close> is \<open>AND NOT\<close>, and \<open>/\<close> truncates towards zero. A panic is a
  value of the result, so that a caller (or a deferred \<open>recover\<close>) sees it; the state
  that a panicking call leaves behind is returned with it. Calls to the logger write
  nothing that the generator reads and are left out.
\<close>

type_synonym int64 = "64 word"
type_synonym int8 = "8 word"
type_synonym uint64 = "64 word"

datatype panic =
    LowBitsAboutToRunOut
  | Impossible
  | NCannotBeNegative
  | NIsTooOld
  | SectionOutOfRange
  | StepNotAllowed
  | FloorOutOfRange
  | SecondWithStep
  | SeedCannotBeZero
  | IntegerDivideByZero
  | NilFunctionCall

datatype error =
    MustBePositive
  | ShouldNotExceed int64
  | ShouldBeDifferent int64
  | KeyCannotBeEmpty
  | Other string

datatype 'a outcome = Panicked panic | Returned 'a

text \<open>Go's \<open>a / b\<close> on \<open>int64\<close> for \<open>b \<noteq> 0\<close>: the quotient truncated towards zero,
  wrapped to 64 bits (so that \<open>MinInt64 / -1 = MinInt64\<close>).\<close>

definition quo :: "int64 \<Rightarrow> int64 \<Rightarrow> int64" where
  "quo a b = word_of_int (sint a sdiv sint b)"

section \<open>The 32/32 generator (package internal, first variant)\<close>

definition PanicValue :: int64 where
  "PanicValue = ((push_bit 32 1 * 96) div 100) AND NOT 1023"

definition CriticalValue :: int64 where
  "CriticalValue = ((push_bit 32 1 * 80) div 100) AND NOT 1023"

definition RenewIntervalMask :: int64 where
  "RenewIntervalMask = 0x2000000 - 1"

definition Bye :: int64 where
  "Bye = ((CriticalValue + RenewIntervalMask) AND NOT RenewIntervalMask) - 1"

definition H32Mask :: int64 where
  "H32Mask = push_bit 32 0x1FFFFF"

definition L32Mask :: int64 where
  "L32Mask = 0x0FFFFFFFF"

definition L60Mask :: int64 where
  "L60Mask = 0x0FFFFFFFFFFFFFFF"

text \<open>
  The struct \<open>WUID\<close>. \<open>Renew\<close> is a Go closure \<open>func() error\<close> that changes the
  generator it was made for; it is kept as the data \<open>'r\<close> the closure captured, and
  the function that runs such a closure on a generator is given to \<open>RenewNow\<close>.
  \<open>None\<close> is Go's \<open>nil\<close>. The embedded logger and mutex hold no data of the model.
\<close>

record 'r WUID =
  N :: int64
  Step :: int64
  Floor :: int64
  Flags :: int8
  Obfuscation :: bool
  Monolithic :: bool
  ObfuscationMask :: int64
  Section :: int64
  Name :: string
  h32Verifier :: "(int64 \<Rightarrow> error option) option"
  Renew :: "'r option"
  NumRenewAttempts :: int64
  NumRenewed :: int64

type_synonym 'r Option = "'r WUID \<Rightarrow> 'r WUID outcome"

definition Withh32Verifier :: "(int64 \<Rightarrow> error option) option \<Rightarrow> 'r Option" where
  "Withh32Verifier cb = (\<lambda>w. Returned (w\<lparr>h32Verifier := cb\<rparr>))"

definition WithSection :: "int8 \<Rightarrow> 'r Option outcome" where
  "WithSection section =
     (if section <s 0 \<or> 7 <s section then Panicked SectionOutOfRange
      else Returned (\<lambda>w. Returned (w\<lparr>Monolithic := False, Section := push_bit 60 (scast section)\<rparr>)))"

definition allowed_steps :: "int64 list" where
  "allowed_steps = [1, 2, 4, 8, 16, 32, 64, 128, 256, 512, 1024]"

definition WithStep :: "int64 \<Rightarrow> int64 \<Rightarrow> 'r Option outcome" where
  "WithStep step floor =
     (if step \<notin> set allowed_steps then Panicked StepNotAllowed
      else if floor \<noteq> 0 \<and> (floor <s 0 \<or> step \<le>s floor) then Panicked FloorOutOfRange
      else Returned (\<lambda>w.
        if Step w \<noteq> 1 then Panicked SecondWithStep
        else let w1 = w\<lparr>Step := step\<rparr>
             in if 2 \<le>s floor then Returned (w1\<lparr>Floor := floor, Flags := Flags w1 OR 2\<rparr>)
                else Returned w1))"

definition obfuscation_mask :: "int64 \<Rightarrow> int64" where
  "obfuscation_mask seed =
     (let x0 = (seed :: uint64);
          x1 = (x0 XOR drop_bit 30 x0) * 0xbf58476d1ce4e5b9;
          x2 = (x1 XOR drop_bit 27 x1) * 0x94d049bb133111eb;
          x3 = (x2 XOR drop_bit 31 x2) AND 0x7FFFFFFFFFFFFFFF
      in x3)"

definition WithObfuscation :: "int64 \<Rightarrow> 'r Option outcome" where
  "WithObfuscation seed =
     (if seed = 0 then Panicked SeedCannotBeZero
      else Returned (\<lambda>w. Returned
        (w\<lparr>Obfuscation := True, ObfuscationMask := obfuscation_mask seed,
           Flags := Flags w OR 1\<rparr>)))"

text \<open>The loop \<open>for _, opt := range opts { opt(w) }\<close>: a panicking option ends it.\<close>

fun apply_opts :: "'r Option list \<Rightarrow> 'r WUID \<Rightarrow> 'r WUID outcome" where
  "apply_opts [] w = Returned w"
| "apply_opts (opt # opts) w =
     (case opt w of Panicked p \<Rightarrow> Panicked p | Returned w1 \<Rightarrow> apply_opts opts w1)"

definition zero_WUID :: "string \<Rightarrow> 'r WUID" where
  "zero_WUID name =
     \<lparr>N = 0, Step = 1, Floor = 0, Flags = 0, Obfuscation = False, Monolithic = True,
      ObfuscationMask = 0, Section = 0, Name = name, h32Verifier = None, Renew = None,
      NumRenewAttempts = 0, NumRenewed = 0\<rparr>"

definition NewWUID :: "string \<Rightarrow> 'r Option list \<Rightarrow> 'r WUID outcome" where
  "NewWUID name opts =
     (case apply_opts opts (zero_WUID name) of
        Panicked p \<Rightarrow> Panicked p
      | Returned w \<Rightarrow>
          if \<not> Obfuscation w \<or> Floor w = 0 then Returned w
          else Returned (w\<lparr>ObfuscationMask := ObfuscationMask w OR (Step w - 1)\<rparr>))"

text \<open>The two atomic operations on the counter word.\<close>

definition AddInt64 :: "'r WUID \<Rightarrow> int64 \<Rightarrow> int64 \<times> 'r WUID" where
  "AddInt64 w delta = (N w + delta, w\<lparr>N := N w + delta\<rparr>)"

definition CompareAndSwapInt64 :: "'r WUID \<Rightarrow> int64 \<Rightarrow> int64 \<Rightarrow> 'r WUID" where
  "CompareAndSwapInt64 w old new = (if N w = old then w\<lparr>N := new\<rparr> else w)"

text \<open>
  The \<open>switch w.Flags\<close> of \<open>Next\<close>. A division by a zero \<open>Floor\<close> is Go's run-time
  panic.
\<close>

definition transform :: "'r WUID \<Rightarrow> int64 \<Rightarrow> int64 outcome" where
  "transform w v1 =
     (if Flags w = 0 then Returned v1
      else if Flags w = 1 then
        (let x = v1 XOR ObfuscationMask w;
             r = (v1 AND H32Mask) OR (x AND L32Mask)
         in Returned r)
      else if Flags w = 2 then
        (if Floor w = 0 then Panicked IntegerDivideByZero
         else Returned (quo v1 (Floor w) * Floor w))
      else if Flags w = 3 then
        (let x = v1 XOR ObfuscationMask w;
             q = (v1 AND H32Mask) OR (x AND L32Mask)
         in if Floor w = 0 then Panicked IntegerDivideByZero
            else Returned (quo q (Floor w) * Floor w))
      else Panicked Impossible)"

text \<open>
  \<open>Next\<close> after its atomic add: \<open>v1\<close> is what the add returned, \<open>w\<close> the generator as
  it is when the rest runs (other callers may have moved the word in between). The
  result is what the call returns or panics with, whether it started \<open>go renewImpl(w)\<close>,
  and the generator afterwards.
\<close>

definition Next_rest :: "int64 \<Rightarrow> 'r WUID \<Rightarrow> (int64 outcome \<times> bool) \<times> 'r WUID" where
  "Next_rest v1 w =
     (let v2 = v1 AND L32Mask in
      if PanicValue \<le>s v2 then
        (let panicValue = (v1 AND H32Mask) OR PanicValue
         in ((Panicked LowBitsAboutToRunOut, False), CompareAndSwapInt64 w v1 panicValue))
      else ((transform w v1, CriticalValue \<le>s v2 \<and> v2 AND RenewIntervalMask = 0), w))"

definition Next :: "'r WUID \<Rightarrow> (int64 outcome \<times> bool) \<times> 'r WUID" where
  "Next w = (let (v1, w1) = AddInt64 w (Step w) in Next_rest v1 w1)"

definition RenewNow ::
  "('r \<Rightarrow> 'r WUID \<Rightarrow> error option outcome \<times> 'r WUID) \<Rightarrow> 'r WUID
   \<Rightarrow> error option outcome \<times> 'r WUID" where
  "RenewNow call w =
     (case Renew w of
        None \<Rightarrow> (Panicked NilFunctionCall, w)
      | Some f \<Rightarrow> call f w)"

text \<open>\<open>renewImpl\<close>: the deferred functions recover a panic and count the attempt.\<close>

definition renewImpl ::
  "('r \<Rightarrow> 'r WUID \<Rightarrow> error option outcome \<times> 'r WUID) \<Rightarrow> 'r WUID \<Rightarrow> 'r WUID" where
  "renewImpl call w =
     (let (r, w1) = RenewNow call w;
          w2 = (case r of
                  Returned None \<Rightarrow> w1\<lparr>NumRenewed := NumRenewed w1 + 1\<rparr>
                | _ \<Rightarrow> w1)
      in w2\<lparr>NumRenewAttempts := NumRenewAttempts w2 + 1\<rparr>)"

definition Reset :: "'r WUID \<Rightarrow> int64 \<Rightarrow> unit outcome \<times> 'r WUID" where
  "Reset w n =
     (if n <s 0 then (Panicked NCannotBeNegative, w)
      else if PanicValue \<le>s n AND L32Mask then (Panicked NIsTooOld, w)
      else
        (let n1 = (if Monolithic w then n else (n AND L60Mask) OR Section w) in
         if 1 <s Floor w then
           (if n1 AND (Step w - 1) = 0 then (Returned (), w\<lparr>N := n1\<rparr>)
            else (Returned (), w\<lparr>N := (n1 AND NOT (Step w - 1)) + Step w\<rparr>))
         else (Returned (), w\<lparr>N := n1\<rparr>)))"

definition Verifyh32 :: "'r WUID \<Rightarrow> int64 \<Rightarrow> error option" where
  "Verifyh32 w h32 =
     (if h32 \<le>s 0 then Some MustBePositive
      else if Monolithic w \<and> 0x1FFFFF <s h32 then Some (ShouldNotExceed 0x1FFFFF)
      else if \<not> Monolithic w \<and> 0x00FFFFFF <s h32 then Some (ShouldNotExceed 0x00FFFFFF)
      else
        (let current = signed_drop_bit 32 (N w) in
         if Monolithic w \<and> h32 = current then Some (ShouldBeDifferent h32)
         else if \<not> Monolithic w \<and> h32 = current AND 0x00FFFFFF then Some (ShouldBeDifferent h32)
         else (case h32Verifier w of
                 None \<Rightarrow> None
               | Some cb \<Rightarrow> cb h32)))"

text \<open>
  \<open>n\<close> calls of \<open>Next\<close>, one after the other: for each call the raw word \<open>v1\<close> its
  atomic add returned, and what the call gave. The atomic add is one indivisible
  step, so calls made at the same time take effect in some such order.
\<close>

fun Next_trace :: "nat \<Rightarrow> 'r WUID \<Rightarrow> (int64 \<times> (int64 outcome \<times> bool)) list" where
  "Next_trace 0 w = []"
| "Next_trace (Suc n) w =
     (fst (AddInt64 w (Step w)), fst (Next w)) # Next_trace n (snd (Next w))"

definition is_panic :: "'a outcome \<Rightarrow> bool" where
  "is_panic r = (case r of Panicked p \<Rightarrow> True | Returned v \<Rightarrow> False)"

section \<open>The Redis loader (package wuid, redis/v8)\<close>

text \<open>
  \<open>newClient\<close> is a function without arguments, kept as what a call of it returns:
  an error, or a client and the \<open>autoClose\<close> flag. What the server answers to
  \<open>client.Incr(ctx, key).Result()\<close> is the parameter \<open>Incr\<close>. The closure that
  \<open>Loadh32FromRedis\<close> stores in \<open>Renew\<close> captures \<open>newClient\<close> and \<open>key\<close>.
\<close>

type_synonym 'cl NewClient = "error + 'cl \<times> bool"
type_synonym 'cl renewal = "'cl NewClient \<times> string"

definition Loadh32FromRedis ::
  "('cl \<Rightarrow> string \<Rightarrow> error + int64) \<Rightarrow> 'cl NewClient \<Rightarrow> string \<Rightarrow> 'cl renewal WUID
   \<Rightarrow> error option outcome \<times> 'cl renewal WUID" where
  "Loadh32FromRedis Incr newClient key w =
     (if length key = 0 then (Returned (Some KeyCannotBeEmpty), w)
      else
        (case newClient of
           Inl err \<Rightarrow> (Returned (Some err), w)
         | Inr (client, autoClose) \<Rightarrow>
             (case Incr client key of
                Inl err \<Rightarrow> (Returned (Some err), w)
              | Inr h32 \<Rightarrow>
                  (case Verifyh32 w h32 of
                     Some err \<Rightarrow> (Returned (Some err), w)
                   | None \<Rightarrow>
                       (case Reset w (push_bit 32 h32) of
                          (Panicked p, w1) \<Rightarrow> (Panicked p, w1)
                        | (Returned u, w1) \<Rightarrow>
                            if Renew w1 \<noteq> None then (Returned None, w1)
                            else (Returned None, w1\<lparr>Renew := Some (newClient, key)\<rparr>))))))"

text \<open>Running the stored closure \<open>func() error { return w.Loadh32FromRedis(newClient, key) }\<close>.\<close>

definition call_renewal ::
  "('cl \<Rightarrow> string \<Rightarrow> error + int64) \<Rightarrow> 'cl renewal \<Rightarrow> 'cl renewal WUID
   \<Rightarrow> error option outcome \<times> 'cl renewal WUID" where
  "call_renewal Incr f w = Loadh32FromRedis Incr (fst f) (snd f) w"

section \<open>The 28/36 generator (package internal, second variant)\<close>

text \<open>The second variant declares the same names; here they carry the suffix 36.\<close>

definition PanicValue36 :: int64 where
  "PanicValue36 = ((push_bit 36 1 * 96) div 100) AND NOT 1023"

definition CriticalValue36 :: int64 where
  "CriticalValue36 = ((push_bit 36 1 * 80) div 100) AND NOT 1023"

definition RenewIntervalMask36 :: int64 where
  "RenewIntervalMask36 = 0x20000000 - 1"

definition H28Mask :: int64 where
  "H28Mask = push_bit 36 0x07FFFFFF"

definition L36Mask :: int64 where
  "L36Mask = 0x0FFFFFFFFF"

definition SectionMask :: int64 where
  "SectionMask = 0x0FFFFFFFFFFFFFFF"

record 'r WUID36 =
  N36 :: int64
  Step36 :: int64
  Floor36 :: int64
  Monolithic36 :: bool
  Section36 :: int64
  Name36 :: string
  H28Verifier :: "(int64 \<Rightarrow> error option) option"
  Renew36 :: "'r option"

type_synonym 'r Option36 = "'r WUID36 \<Rightarrow> 'r WUID36 outcome"

definition WithSection36 :: "int8 \<Rightarrow> 'r Option36 outcome" where
  "WithSection36 section =
     (if section <s 0 \<or> 7 <s section then Panicked SectionOutOfRange
      else Returned (\<lambda>w. Returned (w\<lparr>Monolithic36 := False, Section36 := push_bit 60 (scast section)\<rparr>)))"

definition WithH28Verifier :: "(int64 \<Rightarrow> error option) option \<Rightarrow> 'r Option36" where
  "WithH28Verifier cb = (\<lambda>w. Returned (w\<lparr>H28Verifier := cb\<rparr>))"

definition WithStep36 :: "int64 \<Rightarrow> int64 \<Rightarrow> 'r Option36 outcome" where
  "WithStep36 step floor =
     (if step \<notin> set allowed_steps then Panicked StepNotAllowed
      else if floor \<noteq> 0 \<and> (floor <s 0 \<or> step \<le>s floor) then Panicked FloorOutOfRange
      else Returned (\<lambda>w. Returned (w\<lparr>Step36 := step, Floor36 := floor\<rparr>)))"

fun apply_opts36 :: "'r Option36 list \<Rightarrow> 'r WUID36 \<Rightarrow> 'r WUID36 outcome" where
  "apply_opts36 [] w = Returned w"
| "apply_opts36 (opt # opts) w =
     (case opt w of Panicked p \<Rightarrow> Panicked p | Returned w1 \<Rightarrow> apply_opts36 opts w1)"

definition zero_WUID36 :: "string \<Rightarrow> 'r WUID36" where
  "zero_WUID36 name =
     \<lparr>N36 = 0, Step36 = 1, Floor36 = 0, Monolithic36 = True, Section36 = 0,
      Name36 = name, H28Verifier = None, Renew36 = None\<rparr>"

definition NewWUID36 :: "string \<Rightarrow> 'r Option36 list \<Rightarrow> 'r WUID36 outcome" where
  "NewWUID36 name opts = apply_opts36 opts (zero_WUID36 name)"

definition AddInt64_36 :: "'r WUID36 \<Rightarrow> int64 \<Rightarrow> int64 \<times> 'r WUID36" where
  "AddInt64_36 w delta = (N36 w + delta, w\<lparr>N36 := N36 w + delta\<rparr>)"

definition CompareAndSwapInt64_36 :: "'r WUID36 \<Rightarrow> int64 \<Rightarrow> int64 \<Rightarrow> 'r WUID36" where
  "CompareAndSwapInt64_36 w old new = (if N36 w = old then w\<lparr>N36 := new\<rparr> else w)"

definition Next36_rest :: "int64 \<Rightarrow> 'r WUID36 \<Rightarrow> (int64 outcome \<times> bool) \<times> 'r WUID36" where
  "Next36_rest x w =
     (let v = x AND L36Mask in
      if PanicValue36 \<le>s v then
        (let panicValue = (x AND H28Mask) OR PanicValue36
         in ((Panicked LowBitsAboutToRunOut, False), CompareAndSwapInt64_36 w x panicValue))
      else
        ((if Floor36 w = 0 then Returned x else Returned (quo x (Floor36 w) * Floor36 w),
          CriticalValue36 \<le>s v \<and> v AND RenewIntervalMask36 = 0), w))"

definition Next36 :: "'r WUID36 \<Rightarrow> (int64 outcome \<times> bool) \<times> 'r WUID36" where
  "Next36 w = (let (x, w1) = AddInt64_36 w (Step36 w) in Next36_rest x w1)"

definition RenewNow36 ::
  "('r \<Rightarrow> 'r WUID36 \<Rightarrow> error option outcome \<times> 'r WUID36) \<Rightarrow> 'r WUID36
   \<Rightarrow> error option outcome \<times> 'r WUID36" where
  "RenewNow36 call w =
     (case Renew36 w of
        None \<Rightarrow> (Panicked NilFunctionCall, w)
      | Some f \<Rightarrow> call f w)"

definition Reset36 :: "'r WUID36 \<Rightarrow> int64 \<Rightarrow> unit outcome \<times> 'r WUID36" where
  "Reset36 w n =
     (if n <s 0 then (Panicked NCannotBeNegative, w)
      else if Monolithic36 w then (Returned (), w\<lparr>N36 := n\<rparr>)
      else (let v = (n AND SectionMask) OR Section36 w in (Returned (), w\<lparr>N36 := v\<rparr>)))"

definition VerifyH28 :: "'r WUID36 \<Rightarrow> int64 \<Rightarrow> error option" where
  "VerifyH28 w h28 =
     (if h28 \<le>s 0 then Some MustBePositive
      else if Monolithic36 w \<and> 0x07FFFFFF <s h28 then Some (ShouldNotExceed 0x07FFFFFF)
      else if \<not> Monolithic36 w \<and> 0x00FFFFFF <s h28 then Some (ShouldNotExceed 0x00FFFFFF)
      else
        (let current = signed_drop_bit 36 (N36 w) in
         if Monolithic36 w \<and> h28 = current then Some (ShouldBeDifferent h28)
         else if \<not> Monolithic36 w \<and> h28 = current AND 0x00FFFFFF then Some (ShouldBeDifferent h28)
         else (case H28Verifier w of
                 None \<Rightarrow> None
               | Some cb \<Rightarrow> cb h28)))"

fun Next36_trace :: "nat \<Rightarrow> 'r WUID36 \<Rightarrow> (int64 \<times> (int64 outcome \<times> bool)) list" where
  "Next36_trace 0 w = []"
| "Next36_trace (Suc n) w =
     (fst (AddInt64_36 w (Step36 w)), fst (Next36 w)) # Next36_trace n (snd (Next36 w))"

section \<open>Generators built through the options\<close>

text \<open>
  \<open>NewWUID(name, nil, WithSection(section))\<close> and
  \<open>NewWUID(name, nil, WithSection(section), WithObfuscation(seed))\<close>, as a caller
  writes them: a panic of an option constructor ends the construction.
\<close>

definition NewWUID_sectioned :: "string \<Rightarrow> int8 \<Rightarrow> 'r WUID outcome" where
  "NewWUID_sectioned name section =
     (case WithSection section of
        Panicked p \<Rightarrow> Panicked p
      | Returned o1 \<Rightarrow> NewWUID name [o1])"

definition NewWUID_sectioned_obfuscated :: "string \<Rightarrow> int8 \<Rightarrow> int64 \<Rightarrow> 'r WUID outcome" where
  "NewWUID_sectioned_obfuscated name section seed =
     (case WithSection section of
        Panicked p \<Rightarrow> Panicked p
      | Returned o1 \<Rightarrow>
          (case WithObfuscation seed of
             Panicked p \<Rightarrow> Panicked p
           | Returned o2 \<Rightarrow> NewWUID name [o1, o2]))"


text \<open>
  The option values a caller can pass to \<open>NewWUID\<close>: the results of the four option
  constructors (three in the 28/36 variant), when the constructor did not panic.
\<close>

inductive made_by_options :: "'r Option \<Rightarrow> bool" where
  "made_by_options (Withh32Verifier cb)"
| "WithSection sec = Returned opt \<Longrightarrow> made_by_options opt"
| "WithStep step floor = Returned opt \<Longrightarrow> made_by_options opt"
| "WithObfuscation seed = Returned opt \<Longrightarrow> made_by_options opt"

inductive made_by_options36 :: "'r Option36 \<Rightarrow> bool" where
  "made_by_options36 (WithH28Verifier cb)"
| "WithSection36 sec = Returned opt \<Longrightarrow> made_by_options36 opt"
| "WithStep36 step floor = Returned opt \<Longrightarrow> made_by_options36 opt"

text \<open>
  What holds of the fields of a 32/32 generator while \<open>NewWUID\<close> runs its options:
  the step is one of the allowed ones, \<open>Flags\<close> has bit 1 set exactly when a floor of
  at least 2 was stored (and then the floor is below the step), bit 0 exactly when
  obfuscation is on, and the section tag lies in bits 60 to 62.
\<close>

definition options_applied :: "'r WUID \<Rightarrow> bool" where
  "options_applied w \<longleftrightarrow>
     Step w \<in> set allowed_steps \<and>
     (Flags w = 0 \<or> Flags w = 1 \<or> Flags w = 2 \<or> Flags w = 3) \<and>
     (Flags w = 2 \<or> Flags w = 3 \<longrightarrow> 2 \<le> sint (Floor w) \<and> sint (Floor w) < sint (Step w)) \<and>
     (Flags w = 0 \<or> Flags w = 1 \<longrightarrow> Floor w = 0) \<and>
     (Obfuscation w \<longleftrightarrow> Flags w = 1 \<or> Flags w = 3) \<and>
     (Monolithic w \<longrightarrow> Section w = 0) \<and>
     Section w AND L60Mask = 0 \<and> 0 \<le> sint (Section w)"

text \<open>
  The same once \<open>NewWUID\<close> has returned: with obfuscation and a floor, the final
  \<open>w.ObfuscationMask |= w.Step - 1\<close> has set the low bits of the mask.
\<close>

definition configured :: "'r WUID \<Rightarrow> bool" where
  "configured w \<longleftrightarrow>
     Step w \<in> set allowed_steps \<and>
     (Flags w = 0 \<or> Flags w = 1 \<or> Flags w = 2 \<or> Flags w = 3) \<and>
     (Flags w = 2 \<or> Flags w = 3 \<longrightarrow> 2 \<le> sint (Floor w) \<and> sint (Floor w) < sint (Step w)) \<and>
     (Flags w = 0 \<or> Flags w = 1 \<longrightarrow> Floor w = 0) \<and>
     (Obfuscation w \<longleftrightarrow> Flags w = 1 \<or> Flags w = 3) \<and>
     (Flags w = 3 \<longrightarrow> ObfuscationMask w AND (Step w - 1) = Step w - 1) \<and>
     (Monolithic w \<longrightarrow> Section w = 0) \<and>
     Section w AND L60Mask = 0 \<and> 0 \<le> sint (Section w)"

text \<open>The fields of a 28/36 generator as \<open>NewWUID\<close> and its options leave them.\<close>

definition configured36 :: "'r WUID36 \<Rightarrow> bool" where
  "configured36 w \<longleftrightarrow>
     Step36 w \<in> set allowed_steps \<and>
     (Floor36 w = 0 \<or> 1 \<le> sint (Floor36 w) \<and> sint (Floor36 w) < sint (Step36 w)) \<and>
     (Monolithic36 w \<longrightarrow> Section36 w = 0) \<and>
     Section36 w AND SectionMask = 0 \<and> 0 \<le> sint (Section36 w)"

section \<open>The constants and the low segment, as numbers\<close>

lemma consts32:
  "PanicValue = 4123167744" "CriticalValue = 3435973632" "RenewIntervalMask = 33554431"
  "H32Mask = 0x1FFFFF00000000" "L32Mask = 4294967295" "Bye = 3456106495"
  by (simp_all add: PanicValue_def CriticalValue_def RenewIntervalMask_def H32Mask_def
      L32Mask_def Bye_def)

lemma consts36:
  "PanicValue36 = 65970697216" "CriticalValue36 = 54975581184"
  "RenewIntervalMask36 = 536870911" "H28Mask = 0x7FFFFFF000000000" "L36Mask = 68719476735"
  by (simp_all add: PanicValue36_def CriticalValue36_def RenewIntervalMask36_def H28Mask_def
      L36Mask_def)

lemma L32Mask_mask: "L32Mask = mask 32"
  by (simp add: L32Mask_def mask_eq_exp_minus_1)

lemma L36Mask_mask: "L36Mask = mask 36"
  by (simp add: L36Mask_def mask_eq_exp_minus_1)

lemma sint_small: "uint (x :: int64) < 2 ^ 63 \<Longrightarrow> sint x = uint x"
proof -
  assume a: "uint x < 2 ^ 63"
  have "(- (2 ^ 63) :: int) \<le> 0" by simp
  then have "- (2 ^ 63) \<le> uint x"
    using uint_ge_0 [of x] by (rule order_trans)
  then have "signed_take_bit 63 (uint x) = uint x"
    using a by (intro signed_take_bit_int_eq_self) simp_all
  then show ?thesis by (simp add: sint_uint)
qed

lemma uint_low32: "uint (x AND L32Mask :: int64) = uint x mod 2 ^ 32"
proof -
  have "x AND L32Mask = take_bit 32 x"
    by (simp only: L32Mask_mask take_bit_eq_mask)
  then have "uint (x AND L32Mask) = take_bit 32 (uint x)"
    by (simp only: unsigned_take_bit_eq)
  then show ?thesis by (simp only: take_bit_eq_mod)
qed

lemma uint_low36: "uint (x AND L36Mask :: int64) = uint x mod 2 ^ 36"
proof -
  have "x AND L36Mask = take_bit 36 x"
    by (simp only: L36Mask_mask take_bit_eq_mask)
  then have "uint (x AND L36Mask) = take_bit 36 (uint x)"
    by (simp only: unsigned_take_bit_eq)
  then show ?thesis by (simp only: take_bit_eq_mod)
qed

lemma sint_low32: "sint (x AND L32Mask :: int64) = uint x mod 2 ^ 32"
proof -
  have "uint (x AND L32Mask) < 2 ^ 32" unfolding uint_low32 by simp
  then have "uint (x AND L32Mask) < 2 ^ 63" by simp
  then show ?thesis by (simp only: sint_small uint_low32)
qed

lemma sint_low36: "sint (x AND L36Mask :: int64) = uint x mod 2 ^ 36"
proof -
  have "uint (x AND L36Mask) < 2 ^ 36" unfolding uint_low36 by simp
  then have "uint (x AND L36Mask) < 2 ^ 63" by simp
  then show ?thesis by (simp only: sint_small uint_low36)
qed

lemma PanicValue_int: "sint PanicValue = 4123167744" "uint PanicValue = 4123167744"
  by (simp_all add: consts32)

lemma PanicValue36_int: "sint PanicValue36 = 65970697216" "uint PanicValue36 = 65970697216"
  by (simp_all add: consts36)

lemma panic_test32: "PanicValue \<le>s x AND L32Mask \<longleftrightarrow> 4123167744 \<le> uint x mod 2 ^ 32"
  by (simp only: word_sle_eq sint_low32 PanicValue_int)

lemma panic_test36: "PanicValue36 \<le>s x AND L36Mask \<longleftrightarrow> 65970697216 \<le> uint x mod 2 ^ 36"
  by (simp only: word_sle_eq sint_low36 PanicValue36_int)

lemma neg_test: "(n :: int64) <s 0 \<longleftrightarrow> sint n < 0"
  by (simp add: word_sless_alt)

lemma no_carry_int:
  fixes a s m :: int
  assumes "0 \<le> s" "a mod m + s < m" "0 < m"
  shows "(a + s) div m = a div m" and "(a + s) mod m = a mod m + s"
proof -
  have eq: "a + s = m * (a div m) + (a mod m + s)" by simp
  have nonneg: "0 \<le> a mod m + s"
    using assms(1,3) pos_mod_sign [of m a] by linarith
  show "(a + s) div m = a div m"
    using eq nonneg assms(2) by (rule int_div_pos_eq)
  show "(a + s) mod m = a mod m + s"
    using eq nonneg assms(2) by (rule int_mod_pos_eq)
qed

lemma uint_add_mod32: "uint (x + s :: int64) mod 2 ^ 32 = (uint x + uint s) mod 2 ^ 32"
proof -
  have "(2 :: int) ^ 32 dvd 2 ^ 64" by (rule le_imp_power_dvd) simp
  then show ?thesis by (simp add: uint_word_ariths mod_mod_cancel)
qed

lemma uint_add_mod36: "uint (x + s :: int64) mod 2 ^ 36 = (uint x + uint s) mod 2 ^ 36"
proof -
  have "(2 :: int) ^ 36 dvd 2 ^ 64" by (rule le_imp_power_dvd) simp
  then show ?thesis by (simp add: uint_word_ariths mod_mod_cancel)
qed

lemma low32_add:
  assumes "uint x mod 2 ^ 32 + uint s < 2 ^ 32"
  shows "uint (x + s :: int64) mod 2 ^ 32 = uint x mod 2 ^ 32 + uint s"
  unfolding uint_add_mod32 using assms by (intro no_carry_int) simp_all

lemma low36_add:
  assumes "uint x mod 2 ^ 36 + uint s < 2 ^ 36"
  shows "uint (x + s :: int64) mod 2 ^ 36 = uint x mod 2 ^ 36 + uint s"
  unfolding uint_add_mod36 using assms by (intro no_carry_int) simp_all

lemma uint_div_add:
  fixes x s :: int64
  assumes "uint x mod 2 ^ k + uint s < 2 ^ k" "k \<le> 64"
  shows "uint (x + s) div 2 ^ k = uint x div 2 ^ k"
proof -
  have d: "drop_bit k (uint x + uint s) = drop_bit k (uint x)"
    unfolding drop_bit_eq_div using assms(1) by (intro no_carry_int) simp_all
  have t: "take_bit 64 (uint x) = uint x"
    using uint_lt2p [of x] by (intro take_bit_int_eq_self) simp_all
  have "uint (x + s) div 2 ^ k = drop_bit k (take_bit 64 (uint x + uint s))"
    by (simp add: uint_word_ariths drop_bit_eq_div take_bit_eq_mod)
  also have "\<dots> = take_bit (64 - k) (drop_bit k (uint x + uint s))"
    by (simp add: drop_bit_take_bit)
  also have "\<dots> = take_bit (64 - k) (drop_bit k (uint x))"
    by (simp only: d)
  also have "\<dots> = drop_bit k (take_bit 64 (uint x))"
    by (simp add: drop_bit_take_bit)
  also have "\<dots> = uint x div 2 ^ k"
    by (simp only: t drop_bit_eq_div)
  finally show ?thesis .
qed

lemma take_bit_uint64: "take_bit 64 (uint (x :: int64)) = uint x"
  using uint_lt2p [of x] by (intro take_bit_int_eq_self) simp_all

lemma H32Mask_push: "H32Mask = push_bit 32 (mask 21)"
  by (simp add: H32Mask_def mask_eq_exp_minus_1)

lemma H28Mask_push: "H28Mask = push_bit 36 (mask 27)"
  by (simp add: H28Mask_def mask_eq_exp_minus_1)

lemma H32Mask_alt: "x AND H32Mask = push_bit 32 (take_bit 21 (drop_bit 32 x))"
  unfolding H32Mask_push by (rule bit_word_eqI) (auto simp add: bit_simps)

lemma H28Mask_alt: "x AND H28Mask = push_bit 36 (take_bit 27 (drop_bit 36 x))"
  unfolding H28Mask_push by (rule bit_word_eqI) (auto simp add: bit_simps)

lemma uint_high32: "uint (x AND H32Mask :: int64) = (uint x div 2 ^ 32 mod 2 ^ 21) * 2 ^ 32"
proof -
  have "uint (x AND H32Mask) = take_bit 64 (push_bit 32 (take_bit 21 (drop_bit 32 (uint x))))"
    by (simp add: H32Mask_alt unsigned_push_bit_eq unsigned_take_bit_eq unsigned_drop_bit_eq
        take_bit_uint64)
  also have "\<dots> = push_bit 32 (take_bit 21 (drop_bit 32 (uint x)))"
    by (simp add: take_bit_push_bit)
  finally show ?thesis
    by (simp add: push_bit_eq_mult take_bit_eq_mod drop_bit_eq_div)
qed

lemma uint_high36: "uint (x AND H28Mask :: int64) = (uint x div 2 ^ 36 mod 2 ^ 27) * 2 ^ 36"
proof -
  have "uint (x AND H28Mask) = take_bit 64 (push_bit 36 (take_bit 27 (drop_bit 36 (uint x))))"
    by (simp add: H28Mask_alt unsigned_push_bit_eq unsigned_take_bit_eq unsigned_drop_bit_eq
        take_bit_uint64)
  also have "\<dots> = push_bit 36 (take_bit 27 (drop_bit 36 (uint x)))"
    by (simp add: take_bit_push_bit)
  finally show ?thesis
    by (simp add: push_bit_eq_mult take_bit_eq_mod drop_bit_eq_div)
qed

lemma high32_add:
  assumes "uint x mod 2 ^ 32 + uint s < 2 ^ 32"
  shows "(x + s) AND H32Mask = x AND H32Mask"
proof -
  have "uint (x + s) div 2 ^ 32 = uint x div 2 ^ 32"
    using assms by (intro uint_div_add) simp_all
  then show ?thesis by (intro word_uint_eqI) (simp only: uint_high32)
qed

lemma high36_add:
  assumes "uint x mod 2 ^ 36 + uint s < 2 ^ 36"
  shows "(x + s) AND H28Mask = x AND H28Mask"
proof -
  have "uint (x + s) div 2 ^ 36 = uint x div 2 ^ 36"
    using assms by (intro uint_div_add) simp_all
  then show ?thesis by (intro word_uint_eqI) (simp only: uint_high36)
qed

lemma pinned32:
  "((v AND H32Mask) OR PanicValue) AND L32Mask = PanicValue"
  "((v AND H32Mask) OR PanicValue) AND H32Mask = v AND H32Mask"
  by (simp_all add: bit.conj_disj_distrib2 and.assoc consts32)

lemma pinned36:
  "((v AND H28Mask) OR PanicValue36) AND L36Mask = PanicValue36"
  "((v AND H28Mask) OR PanicValue36) AND H28Mask = v AND H28Mask"
  by (simp_all add: bit.conj_disj_distrib2 and.assoc consts36)

lemma allowed_step_bounds: "s \<in> set allowed_steps \<Longrightarrow> 1 \<le> uint s \<and> uint s \<le> 1024"
  by (auto simp add: allowed_steps_def)

lemma sint_numeral_tests:
  "(0x1FFFFF :: int64) <s h \<longleftrightarrow> 0x1FFFFF < sint h"
  "(0x00FFFFFF :: int64) <s h \<longleftrightarrow> 0xFFFFFF < sint h"
  "(0x07FFFFFF :: int64) <s h \<longleftrightarrow> 0x7FFFFFF < sint h"
  "h \<le>s (0 :: int64) \<longleftrightarrow> sint h \<le> 0"
  by (simp_all add: word_sless_alt word_sle_eq)

section \<open>The thresholds\<close>

text \<open>
  C8, as stated, fails: the panic threshold is not on a renewal-interval boundary. The
  renewal interval is \<open>RenewIntervalMask + 1\<close> (\<open>2^25\<close>, and \<open>2^29\<close> in the second
  variant), and the panic threshold has bits set under that mask in both variants.
\<close>

theorem PanicValue_not_on_renewal_boundary:
  "PanicValue AND RenewIntervalMask \<noteq> 0 \<and> PanicValue36 AND RenewIntervalMask36 \<noteq> 0"
  by (simp add: consts32 consts36)

text \<open>
  C8, amended: in each variant the panic threshold is 96% of the low segment's
  space (\<open>2^32\<close> or \<open>2^36\<close>), rounded down to an integer and then down to a multiple of
  1024, and the critical threshold is 80% of that space rounded down the same way.
\<close>

theorem thresholds_rounded_to_1024:
  "uint PanicValue = (2 ^ 32 * 96 div 100) div 1024 * 1024 \<and>
   uint CriticalValue = (2 ^ 32 * 80 div 100) div 1024 * 1024 \<and>
   uint PanicValue36 = (2 ^ 36 * 96 div 100) div 1024 * 1024 \<and>
   uint CriticalValue36 = (2 ^ 36 * 80 div 100) div 1024 * 1024"
  by (simp add: consts32 consts36)

section \<open>Reset\<close>

text \<open>
  What \<open>Reset\<close> rejects in the 32/32 variant: it panics on a negative \<open>n\<close>, and on a
  non-negative \<open>n\<close> whose low 32 bits are at or above the panic threshold; in both
  cases the generator, and so its counter word, is left as it was. It panics on no
  other input.
\<close>

theorem Reset_rejects_exhausted:
  "(sint n < 0 \<longrightarrow> Reset w n = (Panicked NCannotBeNegative, w)) \<and>
   (0 \<le> sint n \<and> uint PanicValue \<le> uint (n AND L32Mask)
      \<longrightarrow> Reset w n = (Panicked NIsTooOld, w)) \<and>
   (is_panic (fst (Reset w n)) \<longleftrightarrow> sint n < 0 \<or> uint PanicValue \<le> uint (n AND L32Mask))"
  by (auto simp add: Reset_def neg_test panic_test32 uint_low32 PanicValue_int is_panic_def
      Let_def)

text \<open>
  At concrete inputs: \<open>-1\<close> and the panic threshold itself are rejected and leave
  the fresh generator unchanged; one below the threshold is accepted.
\<close>

theorem Reset_rejects_exhausted_witness:
  "Reset (zero_WUID ''a'' :: unit WUID) (- 1) = (Panicked NCannotBeNegative, zero_WUID ''a'') \<and>
   Reset (zero_WUID ''a'' :: unit WUID) 4123167744 = (Panicked NIsTooOld, zero_WUID ''a'') \<and>
   \<not> is_panic (fst (Reset (zero_WUID ''a'' :: unit WUID) 4123167743))"
  using Reset_rejects_exhausted [of "- 1" "zero_WUID ''a'' :: unit WUID"]
    Reset_rejects_exhausted [of "4123167744" "zero_WUID ''a'' :: unit WUID"]
    Reset_rejects_exhausted [of "4123167743" "zero_WUID ''a'' :: unit WUID"]
  by (simp add: consts32)



section \<open>RenewNow\<close>

text \<open>
  C5, as stated, fails: a generator fresh from \<open>NewWUID\<close> has no renewal function,
  and \<open>RenewNow\<close> on it calls the nil function value, which is a run-time panic, not
  an error that is returned. The code has no "not bound yet" error.
\<close>

theorem RenewNow_unbound_panics:
  "NewWUID ''alpha'' [] = Returned (zero_WUID ''alpha'' :: unit WUID) \<and>
   RenewNow (\<lambda>f w. (Returned None, w)) (zero_WUID ''alpha'' :: unit WUID)
     = (Panicked NilFunctionCall, zero_WUID ''alpha'')"
  by (simp add: NewWUID_def zero_WUID_def RenewNow_def)

text \<open>
  C5, amended: \<open>RenewNow\<close> gives whatever the call of the bound renewal function
  gives (the error it returns, and the generator as that call leaves it); when no
  function is bound it panics (nil function call) and leaves the generator as it was.
  The same holds in both variants.
\<close>

theorem RenewNow_calls_binding:
  "(Renew w = Some f \<longrightarrow> RenewNow call w = call f w) \<and>
   (Renew w = None \<longrightarrow> RenewNow call w = (Panicked NilFunctionCall, w)) \<and>
   (Renew36 w' = Some f' \<longrightarrow> RenewNow36 call' w' = call' f' w') \<and>
   (Renew36 w' = None \<longrightarrow> RenewNow36 call' w' = (Panicked NilFunctionCall, w'))"
  by (simp add: RenewNow_def RenewNow36_def)

text \<open>
  C5 at concrete generators: with a bound function that returns the error
  \<open>Other ''down''\<close> the call returns that error; with none bound it panics.
\<close>

theorem RenewNow_calls_binding_witness:
  "RenewNow (\<lambda>f w. (Returned (Some f), w)) ((zero_WUID ''a'')\<lparr>Renew := Some (Other ''down'')\<rparr>)
     = (Returned (Some (Other ''down'')), (zero_WUID ''a'')\<lparr>Renew := Some (Other ''down'')\<rparr>) \<and>
   RenewNow (\<lambda>f w. (Returned (Some f), w)) (zero_WUID ''a'')
     = (Panicked NilFunctionCall, zero_WUID ''a'') \<and>
   RenewNow36 (\<lambda>f w. (Returned (Some f), w))
       \<lparr>N36 = 0, Step36 = 1, Floor36 = 0, Monolithic36 = True, Section36 = 0,
        Name36 = ''a'', H28Verifier = None, Renew36 = Some (Other ''down'')\<rparr>
     = (Returned (Some (Other ''down'')),
       \<lparr>N36 = 0, Step36 = 1, Floor36 = 0, Monolithic36 = True, Section36 = 0,
        Name36 = ''a'', H28Verifier = None, Renew36 = Some (Other ''down'')\<rparr>) \<and>
   RenewNow36 (\<lambda>f w. (Returned (Some f), w))
       \<lparr>N36 = 0, Step36 = 1, Floor36 = 0, Monolithic36 = True, Section36 = 0,
        Name36 = ''a'', H28Verifier = None, Renew36 = None :: error option\<rparr>
     = (Panicked NilFunctionCall,
       \<lparr>N36 = 0, Step36 = 1, Floor36 = 0, Monolithic36 = True, Section36 = 0,
        Name36 = ''a'', H28Verifier = None, Renew36 = None\<rparr>)"
  using
    RenewNow_calls_binding [of "(zero_WUID ''a'')\<lparr>Renew := Some (Other ''down'')\<rparr>" "Other ''down''"
      "\<lambda>f w. (Returned (Some f), w)"
      "\<lparr>N36 = 0, Step36 = 1, Floor36 = 0, Monolithic36 = True, Section36 = 0,
        Name36 = ''a'', H28Verifier = None, Renew36 = Some (Other ''down'')\<rparr>" "Other ''down''"
      "\<lambda>f w. (Returned (Some f), w)"]
    RenewNow_calls_binding [of "zero_WUID ''a''" "Other ''down''"
      "\<lambda>f w. (Returned (Some f), w)"
      "\<lparr>N36 = 0, Step36 = 1, Floor36 = 0, Monolithic36 = True, Section36 = 0,
        Name36 = ''a'', H28Verifier = None, Renew36 = None\<rparr>" "Other ''down''"
      "\<lambda>f w. (Returned (Some f), w)"]
  by (simp add: zero_WUID_def)

section \<open>The high-segment verification\<close>

lemma Verifyh32_nonpositive: "sint h \<le> 0 \<Longrightarrow> Verifyh32 w h = Some MustBePositive"
  by (simp add: Verifyh32_def sint_numeral_tests)

lemma Verifyh32_too_large:
  "(if Monolithic w then 0x1FFFFF else 0xFFFFFF) < sint h \<Longrightarrow> Verifyh32 w h \<noteq> None"
  by (cases "Monolithic w") (simp_all add: Verifyh32_def sint_numeral_tests)

lemma Verifyh32_same:
  "h = (if Monolithic w then signed_drop_bit 32 (N w) else signed_drop_bit 32 (N w) AND 0xFFFFFF)
   \<Longrightarrow> Verifyh32 w h \<noteq> None"
  by (cases "Monolithic w") (simp_all add: Verifyh32_def Let_def)

lemma Verifyh32_accepts_iff:
  "h32Verifier w = None \<Longrightarrow>
   (Verifyh32 w h = None \<longleftrightarrow>
      0 < sint h \<and> sint h \<le> (if Monolithic w then 0x1FFFFF else 0xFFFFFF) \<and>
      h \<noteq> (if Monolithic w then signed_drop_bit 32 (N w)
           else signed_drop_bit 32 (N w) AND 0xFFFFFF))"
  by (cases "Monolithic w") (simp_all add: Verifyh32_def sint_numeral_tests Let_def not_le not_less)

lemma VerifyH28_nonpositive: "sint h \<le> 0 \<Longrightarrow> VerifyH28 w h = Some MustBePositive"
  by (simp add: VerifyH28_def sint_numeral_tests)

lemma VerifyH28_too_large:
  "(if Monolithic36 w then 0x7FFFFFF else 0xFFFFFF) < sint h \<Longrightarrow> VerifyH28 w h \<noteq> None"
  by (cases "Monolithic36 w") (simp_all add: VerifyH28_def sint_numeral_tests)

lemma VerifyH28_same:
  "h = (if Monolithic36 w then signed_drop_bit 36 (N36 w)
        else signed_drop_bit 36 (N36 w) AND 0xFFFFFF)
   \<Longrightarrow> VerifyH28 w h \<noteq> None"
  by (cases "Monolithic36 w") (simp_all add: VerifyH28_def Let_def)

lemma VerifyH28_accepts_iff:
  "H28Verifier w = None \<Longrightarrow>
   (VerifyH28 w h = None \<longleftrightarrow>
      0 < sint h \<and> sint h \<le> (if Monolithic36 w then 0x7FFFFFF else 0xFFFFFF) \<and>
      h \<noteq> (if Monolithic36 w then signed_drop_bit 36 (N36 w)
           else signed_drop_bit 36 (N36 w) AND 0xFFFFFF))"
  by (cases "Monolithic36 w") (simp_all add: VerifyH28_def sint_numeral_tests Let_def not_le not_less)

text \<open>
  C3, as stated, fails on the remark that sectioning narrows the bound: in the 32/32
  variant the bound with sectioning is \<open>0xFFFFFF\<close>, wider than the bound \<open>0x1FFFFF\<close>
  without it. The candidate \<open>0x200000\<close> is accepted by a generator built with
  \<open>WithSection(1)\<close> and rejected by one built without, and it does not fit under
  \<open>H32Mask\<close>.
\<close>

theorem Verify_sectioned_bound_is_wider:
  "NewWUID_sectioned ''alpha'' 1
     = Returned ((zero_WUID ''alpha'' :: unit WUID)\<lparr>Monolithic := False, Section := 0x1000000000000000\<rparr>) \<and>
   Verifyh32 ((zero_WUID ''alpha'' :: unit WUID)\<lparr>Monolithic := False, Section := 0x1000000000000000\<rparr>) 0x200000 = None \<and>
   Verifyh32 (zero_WUID ''alpha'' :: unit WUID) 0x200000 = Some (ShouldNotExceed 0x1FFFFF) \<and>
   push_bit 32 0x200000 AND H32Mask = 0"
  by (simp add: NewWUID_sectioned_def WithSection_def NewWUID_def zero_WUID_def word_sless_alt
      word_sle_eq Verifyh32_def H32Mask_def)

text \<open>
  C3, amended: the verification returns an error for every candidate that is zero or
  negative, that exceeds the bound of the variant and mode (32/32: \<open>0x1FFFFF\<close>
  monolithic, \<open>0xFFFFFF\<close> sectioned; 28/36: \<open>0x7FFFFFF\<close> monolithic, \<open>0xFFFFFF\<close>
  sectioned), or that equals the current high segment (the word shifted right by the
  low width, and masked with \<open>0xFFFFFF\<close> when sectioned); with no user verifier it
  returns no error exactly for the positive candidates within the bound that differ
  from the current high segment.
\<close>

theorem Verify_rejects_and_accepts:
  "(sint h \<le> 0 \<longrightarrow> Verifyh32 w h = Some MustBePositive) \<and>
   ((if Monolithic w then 0x1FFFFF else 0xFFFFFF) < sint h \<longrightarrow> Verifyh32 w h \<noteq> None) \<and>
   (h = (if Monolithic w then signed_drop_bit 32 (N w) else signed_drop_bit 32 (N w) AND 0xFFFFFF)
      \<longrightarrow> Verifyh32 w h \<noteq> None) \<and>
   (h32Verifier w = None \<longrightarrow>
      (Verifyh32 w h = None \<longleftrightarrow>
         0 < sint h \<and> sint h \<le> (if Monolithic w then 0x1FFFFF else 0xFFFFFF) \<and>
         h \<noteq> (if Monolithic w then signed_drop_bit 32 (N w)
              else signed_drop_bit 32 (N w) AND 0xFFFFFF))) \<and>
   (sint h' \<le> 0 \<longrightarrow> VerifyH28 w' h' = Some MustBePositive) \<and>
   ((if Monolithic36 w' then 0x7FFFFFF else 0xFFFFFF) < sint h' \<longrightarrow> VerifyH28 w' h' \<noteq> None) \<and>
   (h' = (if Monolithic36 w' then signed_drop_bit 36 (N36 w')
          else signed_drop_bit 36 (N36 w') AND 0xFFFFFF)
      \<longrightarrow> VerifyH28 w' h' \<noteq> None) \<and>
   (H28Verifier w' = None \<longrightarrow>
      (VerifyH28 w' h' = None \<longleftrightarrow>
         0 < sint h' \<and> sint h' \<le> (if Monolithic36 w' then 0x7FFFFFF else 0xFFFFFF) \<and>
         h' \<noteq> (if Monolithic36 w' then signed_drop_bit 36 (N36 w')
               else signed_drop_bit 36 (N36 w') AND 0xFFFFFF)))"
  by (intro conjI impI Verifyh32_nonpositive Verifyh32_too_large Verifyh32_same
      Verifyh32_accepts_iff VerifyH28_nonpositive VerifyH28_too_large VerifyH28_same
      VerifyH28_accepts_iff)

text \<open>
  C3 at concrete generators: each kind of rejection and an acceptance, in the
  monolithic 32/32 variant and in the sectioned 28/36 variant.
\<close>

theorem Verify_rejects_and_accepts_witness:
  "Verifyh32 (zero_WUID ''a'' :: unit WUID) 0 = Some MustBePositive \<and>
   Verifyh32 (zero_WUID ''a'' :: unit WUID) 0x200000 \<noteq> None \<and>
   Verifyh32 ((zero_WUID ''a'' :: unit WUID)\<lparr>N := 0x500000000\<rparr>) 5 \<noteq> None \<and>
   Verifyh32 (zero_WUID ''a'' :: unit WUID) 7 = None \<and>
   VerifyH28 \<lparr>N36 = 0x5000000000, Step36 = 1, Floor36 = 0, Monolithic36 = False, Section36 = 0,
        Name36 = ''a'', H28Verifier = None, Renew36 = None :: unit option\<rparr> (- 3) = Some MustBePositive \<and>
   VerifyH28 \<lparr>N36 = 0x5000000000, Step36 = 1, Floor36 = 0, Monolithic36 = False, Section36 = 0,
        Name36 = ''a'', H28Verifier = None, Renew36 = None :: unit option\<rparr> 0x1000000 \<noteq> None \<and>
   VerifyH28 \<lparr>N36 = 0x5000000000, Step36 = 1, Floor36 = 0, Monolithic36 = False, Section36 = 0,
        Name36 = ''a'', H28Verifier = None, Renew36 = None :: unit option\<rparr> 5 \<noteq> None \<and>
   VerifyH28 \<lparr>N36 = 0x5000000000, Step36 = 1, Floor36 = 0, Monolithic36 = False, Section36 = 0,
        Name36 = ''a'', H28Verifier = None, Renew36 = None :: unit option\<rparr> 6 = None"
  using
    Verify_rejects_and_accepts [of 0 "zero_WUID ''a'' :: unit WUID" "- 3"
      "\<lparr>N36 = 0x5000000000, Step36 = 1, Floor36 = 0, Monolithic36 = False, Section36 = 0,
        Name36 = ''a'', H28Verifier = None, Renew36 = None :: unit option\<rparr>"]
    Verify_rejects_and_accepts [of "0x200000" "zero_WUID ''a'' :: unit WUID" "0x1000000"
      "\<lparr>N36 = 0x5000000000, Step36 = 1, Floor36 = 0, Monolithic36 = False, Section36 = 0,
        Name36 = ''a'', H28Verifier = None, Renew36 = None :: unit option\<rparr>"]
    Verify_rejects_and_accepts [of 5 "(zero_WUID ''a'' :: unit WUID)\<lparr>N := 0x500000000\<rparr>" 5
      "\<lparr>N36 = 0x5000000000, Step36 = 1, Floor36 = 0, Monolithic36 = False, Section36 = 0,
        Name36 = ''a'', H28Verifier = None, Renew36 = None :: unit option\<rparr>"]
    Verify_rejects_and_accepts [of 7 "zero_WUID ''a'' :: unit WUID" 6
      "\<lparr>N36 = 0x5000000000, Step36 = 1, Floor36 = 0, Monolithic36 = False, Section36 = 0,
        Name36 = ''a'', H28Verifier = None, Renew36 = None :: unit option\<rparr>"]
  by (simp add: zero_WUID_def)

section \<open>Loading a high segment from Redis\<close>

lemma uint_of_nonneg: "0 \<le> sint (x :: int64) \<Longrightarrow> uint x = sint x"
proof -
  assume a: "0 \<le> sint x"
  have "sint x < 2 ^ 63" using sint_lt [of x] by simp
  then have "sint x < 2 ^ 64" by simp
  then have "take_bit 64 (sint x) = sint x"
    using a by (intro take_bit_int_eq_self) simp_all
  then show ?thesis using uint_sint [of x] by simp
qed

lemma uint_shift32:
  assumes "uint (h :: int64) < 2 ^ 31"
  shows "uint (push_bit 32 h) = uint h * 2 ^ 32"
proof -
  have "uint h * 2 ^ 32 < 2 ^ 31 * 2 ^ 32"
    using assms by (intro mult_strict_right_mono) simp_all
  then have "uint h * 2 ^ 32 < 2 ^ 64" by simp
  then have t: "take_bit 64 (uint h * 2 ^ 32) = uint h * 2 ^ 32"
    by (intro take_bit_int_eq_self) simp_all
  have "uint (push_bit 32 h) = take_bit 64 (push_bit 32 (uint h))"
    by (subst unsigned_push_bit_eq) simp
  also have "\<dots> = take_bit 64 (uint h * 2 ^ 32)"
    by (simp only: push_bit_eq_mult)
  finally show ?thesis by (simp only: t)
qed

lemma Verifyh32_None_range:
  assumes "Verifyh32 w h = None"
  shows "0 < sint h \<and> sint h \<le> 0xFFFFFF"
  using assms by (cases "Monolithic w")
    (simp_all add: Verifyh32_def sint_numeral_tests not_le not_less split: if_splits)

lemma Reset_after_Verifyh32:
  assumes "Verifyh32 w h = None"
  shows "fst (Reset w (push_bit 32 h)) = Returned ()"
proof -
  have r: "0 < sint h" "sint h \<le> 0xFFFFFF"
    using Verifyh32_None_range [OF assms] by simp_all
  then have u: "uint h = sint h" by (intro uint_of_nonneg) simp
  with r have "uint h < 2 ^ 31" by simp
  then have s: "uint (push_bit 32 h) = uint h * 2 ^ 32" by (rule uint_shift32)
  have "uint h * 2 ^ 32 \<le> 0xFFFFFF * 2 ^ 32"
    using r u by (intro mult_right_mono) simp_all
  then have "uint (push_bit 32 h) < 2 ^ 63" using s by simp
  then have "sint (push_bit 32 h) = uint (push_bit 32 h)" by (rule sint_small)
  then have nn: "\<not> push_bit 32 h <s 0" by (simp add: neg_test)
  have "uint (push_bit 32 h) mod 2 ^ 32 = 0" using s by simp
  then have lo: "\<not> PanicValue \<le>s push_bit 32 h AND L32Mask"
    by (simp add: panic_test32)
  show ?thesis using nn lo by (simp add: Reset_def Let_def)
qed

lemma Reset_keeps_Renew: "Renew (snd (Reset w n)) = Renew w"
  by (simp add: Reset_def Let_def)



text \<open>For comparison, the first load, with nothing bound, stores its closure.\<close>

lemma first_load_binds:
  assumes "Renew w = None" and "key \<noteq> []" and "newClient = Inr (client, autoClose)"
    and "Incr client key = Inr h32" and "Verifyh32 w h32 = None"
  shows "Loadh32FromRedis Incr newClient key w
    = (Returned None, (snd (Reset w (push_bit 32 h32)))\<lparr>Renew := Some (newClient, key)\<rparr>)"
proof -
  have ok: "fst (Reset w (push_bit 32 h32)) = Returned ()"
    using assms(5) by (rule Reset_after_Verifyh32)
  have keep: "Renew (snd (Reset w (push_bit 32 h32))) = None"
    using assms(1) by (simp add: Reset_keeps_Renew)
  show ?thesis
    using assms(2-5) ok keep
    by (cases "Reset w (push_bit 32 h32)") (simp add: Loadh32FromRedis_def)
qed

section \<open>Next at the panic threshold\<close>

lemma Next_panic32:
  assumes "4123167744 \<le> uint (N w + Step w) mod 2 ^ 32"
  shows "Next w = ((Panicked LowBitsAboutToRunOut, False),
    w\<lparr>N := ((N w + Step w) AND H32Mask) OR PanicValue\<rparr>)"
  using assms by (simp add: Next_def AddInt64_def Next_rest_def panic_test32
      CompareAndSwapInt64_def Let_def)

lemma Next_rest_panic32:
  assumes "4123167744 \<le> uint v1 mod 2 ^ 32"
  shows "Next_rest v1 c = ((Panicked LowBitsAboutToRunOut, False),
    (if N c = v1 then c\<lparr>N := (v1 AND H32Mask) OR PanicValue\<rparr> else c))"
  using assms by (simp add: Next_rest_def panic_test32 CompareAndSwapInt64_def Let_def)

lemma Next_pinned32:
  assumes "N w = (v AND H32Mask) OR PanicValue" and "Step w \<in> set allowed_steps"
  shows "Next w = ((Panicked LowBitsAboutToRunOut, False), w)"
proof -
  have s: "1 \<le> uint (Step w)" "uint (Step w) \<le> 1024"
    using allowed_step_bounds [OF assms(2)] by simp_all
  have lo: "uint (N w) mod 2 ^ 32 = 4123167744"
    using uint_low32 [of "N w"] by (simp add: assms(1) pinned32 PanicValue_int)
  have nc: "uint (N w) mod 2 ^ 32 + uint (Step w) < 2 ^ 32"
    using lo s by simp
  have "uint (N w + Step w) mod 2 ^ 32 = uint (N w) mod 2 ^ 32 + uint (Step w)"
    using nc by (rule low32_add)
  then have p: "4123167744 \<le> uint (N w + Step w) mod 2 ^ 32"
    using lo s by simp
  have "(N w + Step w) AND H32Mask = N w AND H32Mask"
    using nc by (rule high32_add)
  then have "((N w + Step w) AND H32Mask) OR PanicValue = N w"
    by (simp add: assms(1) pinned32)
  then show ?thesis
    using Next_panic32 [OF p] by simp
qed

lemma Next_panic36:
  assumes "65970697216 \<le> uint (N36 w + Step36 w) mod 2 ^ 36"
  shows "Next36 w = ((Panicked LowBitsAboutToRunOut, False),
    w\<lparr>N36 := ((N36 w + Step36 w) AND H28Mask) OR PanicValue36\<rparr>)"
  using assms by (simp add: Next36_def AddInt64_36_def Next36_rest_def panic_test36
      CompareAndSwapInt64_36_def Let_def)

lemma Next_rest_panic36:
  assumes "65970697216 \<le> uint x mod 2 ^ 36"
  shows "Next36_rest x c = ((Panicked LowBitsAboutToRunOut, False),
    (if N36 c = x then c\<lparr>N36 := (x AND H28Mask) OR PanicValue36\<rparr> else c))"
  using assms by (simp add: Next36_rest_def panic_test36 CompareAndSwapInt64_36_def Let_def)

lemma Next_pinned36:
  assumes "N36 w = (v AND H28Mask) OR PanicValue36" and "Step36 w \<in> set allowed_steps"
  shows "Next36 w = ((Panicked LowBitsAboutToRunOut, False), w)"
proof -
  have s: "1 \<le> uint (Step36 w)" "uint (Step36 w) \<le> 1024"
    using allowed_step_bounds [OF assms(2)] by simp_all
  have lo: "uint (N36 w) mod 2 ^ 36 = 65970697216"
    using uint_low36 [of "N36 w"] by (simp add: assms(1) pinned36 PanicValue36_int)
  have nc: "uint (N36 w) mod 2 ^ 36 + uint (Step36 w) < 2 ^ 36"
    using lo s by simp
  have "uint (N36 w + Step36 w) mod 2 ^ 36 = uint (N36 w) mod 2 ^ 36 + uint (Step36 w)"
    using nc by (rule low36_add)
  then have p: "65970697216 \<le> uint (N36 w + Step36 w) mod 2 ^ 36"
    using lo s by simp
  have "(N36 w + Step36 w) AND H28Mask = N36 w AND H28Mask"
    using nc by (rule high36_add)
  then have "((N36 w + Step36 w) AND H28Mask) OR PanicValue36 = N36 w"
    by (simp add: assms(1) pinned36)
  then show ?thesis
    using Next_panic36 [OF p] by simp
qed

text \<open>
  C2: when the low segment of the word that the atomic add returned is at or above the
  panic threshold, \<open>Next\<close> panics, starts no renewal, and leaves the word with its high
  bits under the high mask and its low segment exactly the panic threshold. With a step
  that \<open>WithStep\<close> allows, the next call of \<open>Next\<close> panics in the same way and leaves
  the generator as it is: the word stays pinned and does not wrap. The
  compare-and-swap is the one of \<open>Next_rest\<close>: run on a generator \<open>c\<close> whose word is no
  longer what the add returned, it changes nothing. Both variants.
\<close>

theorem Next_panics_and_pins:
  "(uint PanicValue \<le> uint ((N w + Step w) AND L32Mask) \<longrightarrow>
      Next w = ((Panicked LowBitsAboutToRunOut, False),
                w\<lparr>N := ((N w + Step w) AND H32Mask) OR PanicValue\<rparr>) \<and>
      N (snd (Next w)) AND L32Mask = PanicValue \<and>
      (Step w \<in> set allowed_steps \<longrightarrow>
         Next (snd (Next w)) = ((Panicked LowBitsAboutToRunOut, False), snd (Next w)))) \<and>
   (uint PanicValue \<le> uint (v1 AND L32Mask) \<longrightarrow>
      Next_rest v1 c = ((Panicked LowBitsAboutToRunOut, False),
                        (if N c = v1 then c\<lparr>N := (v1 AND H32Mask) OR PanicValue\<rparr> else c))) \<and>
   (uint PanicValue36 \<le> uint ((N36 w' + Step36 w') AND L36Mask) \<longrightarrow>
      Next36 w' = ((Panicked LowBitsAboutToRunOut, False),
                   w'\<lparr>N36 := ((N36 w' + Step36 w') AND H28Mask) OR PanicValue36\<rparr>) \<and>
      N36 (snd (Next36 w')) AND L36Mask = PanicValue36 \<and>
      (Step36 w' \<in> set allowed_steps \<longrightarrow>
         Next36 (snd (Next36 w')) = ((Panicked LowBitsAboutToRunOut, False), snd (Next36 w')))) \<and>
   (uint PanicValue36 \<le> uint (x AND L36Mask) \<longrightarrow>
      Next36_rest x c' = ((Panicked LowBitsAboutToRunOut, False),
                          (if N36 c' = x then c'\<lparr>N36 := (x AND H28Mask) OR PanicValue36\<rparr> else c')))"
proof (intro conjI impI)
  assume a: "uint PanicValue \<le> uint ((N w + Step w) AND L32Mask)"
  then have p: "4123167744 \<le> uint (N w + Step w) mod 2 ^ 32"
    by (simp only: uint_low32 PanicValue_int)
  show n: "Next w = ((Panicked LowBitsAboutToRunOut, False),
      w\<lparr>N := ((N w + Step w) AND H32Mask) OR PanicValue\<rparr>)"
    using p by (rule Next_panic32)
  show "N (snd (Next w)) AND L32Mask = PanicValue"
    by (simp add: n pinned32)
  assume s: "Step w \<in> set allowed_steps"
  show "Next (snd (Next w)) = ((Panicked LowBitsAboutToRunOut, False), snd (Next w))"
    by (rule Next_pinned32 [where v = "N w + Step w"]) (simp_all add: n s)
next
  assume "uint PanicValue \<le> uint (v1 AND L32Mask)"
  then have "4123167744 \<le> uint v1 mod 2 ^ 32"
    by (simp only: uint_low32 PanicValue_int)
  then show "Next_rest v1 c = ((Panicked LowBitsAboutToRunOut, False),
      (if N c = v1 then c\<lparr>N := (v1 AND H32Mask) OR PanicValue\<rparr> else c))"
    by (rule Next_rest_panic32)
next
  assume a: "uint PanicValue36 \<le> uint ((N36 w' + Step36 w') AND L36Mask)"
  then have p: "65970697216 \<le> uint (N36 w' + Step36 w') mod 2 ^ 36"
    by (simp only: uint_low36 PanicValue36_int)
  show n: "Next36 w' = ((Panicked LowBitsAboutToRunOut, False),
      w'\<lparr>N36 := ((N36 w' + Step36 w') AND H28Mask) OR PanicValue36\<rparr>)"
    using p by (rule Next_panic36)
  show "N36 (snd (Next36 w')) AND L36Mask = PanicValue36"
    by (simp add: n pinned36)
  assume s: "Step36 w' \<in> set allowed_steps"
  show "Next36 (snd (Next36 w')) = ((Panicked LowBitsAboutToRunOut, False), snd (Next36 w'))"
    by (rule Next_pinned36 [where v = "N36 w' + Step36 w'"]) (simp_all add: n s)
next
  assume "uint PanicValue36 \<le> uint (x AND L36Mask)"
  then have "65970697216 \<le> uint x mod 2 ^ 36"
    by (simp only: uint_low36 PanicValue36_int)
  then show "Next36_rest x c' = ((Panicked LowBitsAboutToRunOut, False),
      (if N36 c' = x then c'\<lparr>N36 := (x AND H28Mask) OR PanicValue36\<rparr> else c'))"
    by (rule Next_rest_panic36)
qed

text \<open>
  C2 at concrete generators: one step below the threshold the call panics and pins
  the word at the threshold; the call after it does the same and changes nothing; and
  the rest of a call whose word another caller has moved on by one leaves that word.
\<close>

theorem Next_panics_and_pins_witness:
  "Next ((zero_WUID ''a'' :: unit WUID)\<lparr>N := 4123167743\<rparr>)
     = ((Panicked LowBitsAboutToRunOut, False), (zero_WUID ''a'' :: unit WUID)\<lparr>N := 4123167744\<rparr>) \<and>
   Next ((zero_WUID ''a'' :: unit WUID)\<lparr>N := 4123167744\<rparr>)
     = ((Panicked LowBitsAboutToRunOut, False), (zero_WUID ''a'' :: unit WUID)\<lparr>N := 4123167744\<rparr>) \<and>
   Next_rest 4123167744 ((zero_WUID ''a'' :: unit WUID)\<lparr>N := 4123167745\<rparr>)
     = ((Panicked LowBitsAboutToRunOut, False), (zero_WUID ''a'' :: unit WUID)\<lparr>N := 4123167745\<rparr>) \<and>
   Next36 ((zero_WUID36 ''a'' :: unit WUID36)\<lparr>N36 := 65970697215\<rparr>)
     = ((Panicked LowBitsAboutToRunOut, False), (zero_WUID36 ''a'' :: unit WUID36)\<lparr>N36 := 65970697216\<rparr>) \<and>
   Next36 ((zero_WUID36 ''a'' :: unit WUID36)\<lparr>N36 := 65970697216\<rparr>)
     = ((Panicked LowBitsAboutToRunOut, False), (zero_WUID36 ''a'' :: unit WUID36)\<lparr>N36 := 65970697216\<rparr>) \<and>
   Next36_rest 65970697216 ((zero_WUID36 ''a'' :: unit WUID36)\<lparr>N36 := 65970697217\<rparr>)
     = ((Panicked LowBitsAboutToRunOut, False), (zero_WUID36 ''a'' :: unit WUID36)\<lparr>N36 := 65970697217\<rparr>)"
  using Next_panics_and_pins [where w = "(zero_WUID ''a'' :: unit WUID)\<lparr>N := 4123167743\<rparr>"
      and ?v1.0 = 4123167744 and c = "(zero_WUID ''a'' :: unit WUID)\<lparr>N := 4123167745\<rparr>"
      and w' = "(zero_WUID36 ''a'' :: unit WUID36)\<lparr>N36 := 65970697215\<rparr>"
      and x = 65970697216 and c' = "(zero_WUID36 ''a'' :: unit WUID36)\<lparr>N36 := 65970697217\<rparr>"]
  by (auto simp add: zero_WUID_def zero_WUID36_def consts32 consts36 allowed_steps_def)

section \<open>Runs of Next below the panic threshold\<close>

lemma critical_test32: "CriticalValue \<le>s x AND L32Mask \<longleftrightarrow> 3435973632 \<le> uint x mod 2 ^ 32"
proof -
  have "sint CriticalValue = 3435973632" by (simp add: consts32)
  then show ?thesis by (simp only: word_sle_eq sint_low32)
qed

lemma critical_test36: "CriticalValue36 \<le>s x AND L36Mask \<longleftrightarrow> 54975581184 \<le> uint x mod 2 ^ 36"
proof -
  have "sint CriticalValue36 = 54975581184" by (simp add: consts36)
  then show ?thesis by (simp only: word_sle_eq sint_low36)
qed

lemma boundary_test32: "(x AND L32Mask) AND RenewIntervalMask = 0 \<longleftrightarrow> uint x mod 2 ^ 25 = 0"
proof -
  have m: "RenewIntervalMask = mask 25"
    by (simp add: RenewIntervalMask_def mask_eq_exp_minus_1)
  have "(x AND L32Mask) AND RenewIntervalMask = take_bit 25 x"
    by (simp add: m L32Mask_mask flip: take_bit_eq_mask)
  moreover have "uint (take_bit 25 x) = take_bit 25 (uint x)"
    by (rule unsigned_take_bit_eq)
  moreover have "take_bit 25 (uint x) = uint x mod 2 ^ 25"
    by (rule take_bit_eq_mod)
  moreover have "take_bit 25 x = 0 \<longleftrightarrow> uint (take_bit 25 x) = 0"
    by (simp only: uint_0_iff)
  ultimately show ?thesis
    by (simp only:)
qed

lemma boundary_test36: "(x AND L36Mask) AND RenewIntervalMask36 = 0 \<longleftrightarrow> uint x mod 2 ^ 29 = 0"
proof -
  have m: "RenewIntervalMask36 = mask 29"
    by (simp add: RenewIntervalMask36_def mask_eq_exp_minus_1)
  have "(x AND L36Mask) AND RenewIntervalMask36 = take_bit 29 x"
    by (simp add: m L36Mask_mask flip: take_bit_eq_mask)
  moreover have "uint (take_bit 29 x) = take_bit 29 (uint x)"
    by (rule unsigned_take_bit_eq)
  moreover have "take_bit 29 (uint x) = uint x mod 2 ^ 29"
    by (rule take_bit_eq_mod)
  moreover have "take_bit 29 x = 0 \<longleftrightarrow> uint (take_bit 29 x) = 0"
    by (simp only: uint_0_iff)
  ultimately show ?thesis
    by (simp only:)
qed

lemma Next_below32:
  assumes "uint (N w + Step w) mod 2 ^ 32 < 4123167744"
  shows "Next w = ((transform w (N w + Step w),
      3435973632 \<le> uint (N w + Step w) mod 2 ^ 32 \<and> uint (N w + Step w) mod 2 ^ 25 = 0),
    w\<lparr>N := N w + Step w\<rparr>)"
  using assms by (simp add: Next_def AddInt64_def Next_rest_def panic_test32 critical_test32
      boundary_test32 Let_def transform_def)

lemma transform_not_low_bits: "transform w v \<noteq> Panicked LowBitsAboutToRunOut"
  by (simp add: transform_def Let_def)

lemma Next_threshold_iff32:
  "fst (fst (Next w)) = Panicked LowBitsAboutToRunOut \<longleftrightarrow> 4123167744 \<le> uint (N w + Step w) mod 2 ^ 32"
proof (cases "4123167744 \<le> uint (N w + Step w) mod 2 ^ 32")
  case True
  then show ?thesis by (simp add: Next_panic32)
next
  case False
  then have "uint (N w + Step w) mod 2 ^ 32 < 4123167744" by simp
  then show ?thesis using False by (simp add: Next_below32 transform_not_low_bits)
qed


lemma Next_below36:
  assumes "uint (N36 w + Step36 w) mod 2 ^ 36 < 65970697216"
  shows "Next36 w = (((if Floor36 w = 0 then Returned (N36 w + Step36 w)
        else Returned (quo (N36 w + Step36 w) (Floor36 w) * Floor36 w)),
      54975581184 \<le> uint (N36 w + Step36 w) mod 2 ^ 36 \<and> uint (N36 w + Step36 w) mod 2 ^ 29 = 0),
    w\<lparr>N36 := N36 w + Step36 w\<rparr>)"
  using assms by (simp add: Next36_def AddInt64_36_def Next36_rest_def panic_test36
      critical_test36 boundary_test36 Let_def)

lemma Next_threshold_iff36:
  "fst (fst (Next36 w)) = Panicked LowBitsAboutToRunOut
   \<longleftrightarrow> 65970697216 \<le> uint (N36 w + Step36 w) mod 2 ^ 36"
proof (cases "65970697216 \<le> uint (N36 w + Step36 w) mod 2 ^ 36")
  case True
  then show ?thesis by (simp add: Next_panic36)
next
  case False
  then have "uint (N36 w + Step36 w) mod 2 ^ 36 < 65970697216" by simp
  then show ?thesis using False by (simp add: Next_below36)
qed

lemma upt_shift: "[1..<Suc (Suc n)] = 1 # map Suc [1..<Suc n]"
  by (simp add: upt_conv_Cons map_Suc_upt del: upt_Suc)

lemma Next_trace_low32:
  assumes "Step w \<in> set allowed_steps"
    and "uint (N w) mod 2 ^ 32 < 4123167744"
    and "\<forall>r\<in>set (Next_trace n w). fst (snd r) \<noteq> Panicked LowBitsAboutToRunOut"
  shows "map (\<lambda>r. uint (fst r) mod 2 ^ 32) (Next_trace n w)
    = map (\<lambda>k. uint (N w) mod 2 ^ 32 + int k * uint (Step w)) [1..<Suc n]"
  using assms
proof (induction n arbitrary: w)
  case 0
  show ?case by simp
next
  case (Suc n)
  have s: "1 \<le> uint (Step w)" "uint (Step w) \<le> 1024"
    using allowed_step_bounds [OF Suc.prems(1)] by simp_all
  have nc: "uint (N w) mod 2 ^ 32 + uint (Step w) < 2 ^ 32"
    using Suc.prems(2) s by simp
  have add: "uint (N w + Step w) mod 2 ^ 32 = uint (N w) mod 2 ^ 32 + uint (Step w)"
    using nc by (rule low32_add)
  have "fst (fst (Next w)) \<noteq> Panicked LowBitsAboutToRunOut"
    using Suc.prems(3) by simp
  then have below: "uint (N w + Step w) mod 2 ^ 32 < 4123167744"
    by (simp add: Next_threshold_iff32)
  have st: "snd (Next w) = w\<lparr>N := N w + Step w\<rparr>"
    by (simp add: Next_below32 [OF below])
  have ih: "map (\<lambda>r. uint (fst r) mod 2 ^ 32) (Next_trace n (snd (Next w)))
    = map (\<lambda>k. uint (N (snd (Next w))) mod 2 ^ 32 + int k * uint (Step (snd (Next w)))) [1..<Suc n]"
    using Suc.prems below by (intro Suc.IH) (simp_all add: st)
  have n1: "N (snd (Next w)) = N w + Step w" "Step (snd (Next w)) = Step w"
    by (simp_all add: st)
  have "Next_trace (Suc n) w = (N w + Step w, fst (Next w)) # Next_trace n (snd (Next w))"
    by (simp add: AddInt64_def)
  then have "map (\<lambda>r. uint (fst r) mod 2 ^ 32) (Next_trace (Suc n) w)
    = uint (N w + Step w) mod 2 ^ 32
      # map (\<lambda>r. uint (fst r) mod 2 ^ 32) (Next_trace n (snd (Next w)))"
    by (simp only: list.map fst_conv)
  also have "\<dots> = (uint (N w) mod 2 ^ 32 + uint (Step w))
      # map (\<lambda>k. (uint (N w) mod 2 ^ 32 + uint (Step w)) + int k * uint (Step w)) [1..<Suc n]"
    by (simp only: ih n1 add)
  also have "\<dots> = map (\<lambda>k. uint (N w) mod 2 ^ 32 + int k * uint (Step w)) [1..<Suc (Suc n)]"
    by (simp only: upt_shift list.map map_map o_def) (simp add: algebra_simps)
  finally show ?case .
qed


lemma Next_trace_low36:
  assumes "Step36 w \<in> set allowed_steps"
    and "uint (N36 w) mod 2 ^ 36 < 65970697216"
    and "\<forall>r\<in>set (Next36_trace n w). fst (snd r) \<noteq> Panicked LowBitsAboutToRunOut"
  shows "map (\<lambda>r. uint (fst r) mod 2 ^ 36) (Next36_trace n w)
    = map (\<lambda>k. uint (N36 w) mod 2 ^ 36 + int k * uint (Step36 w)) [1..<Suc n]"
  using assms
proof (induction n arbitrary: w)
  case 0
  show ?case by simp
next
  case (Suc n)
  have s: "1 \<le> uint (Step36 w)" "uint (Step36 w) \<le> 1024"
    using allowed_step_bounds [OF Suc.prems(1)] by simp_all
  have nc: "uint (N36 w) mod 2 ^ 36 + uint (Step36 w) < 2 ^ 36"
    using Suc.prems(2) s by simp
  have add: "uint (N36 w + Step36 w) mod 2 ^ 36 = uint (N36 w) mod 2 ^ 36 + uint (Step36 w)"
    using nc by (rule low36_add)
  have "fst (fst (Next36 w)) \<noteq> Panicked LowBitsAboutToRunOut"
    using Suc.prems(3) by simp
  then have below: "uint (N36 w + Step36 w) mod 2 ^ 36 < 65970697216"
    by (simp add: Next_threshold_iff36)
  have st: "snd (Next36 w) = w\<lparr>N36 := N36 w + Step36 w\<rparr>"
    by (simp add: Next_below36 [OF below])
  have ih: "map (\<lambda>r. uint (fst r) mod 2 ^ 36) (Next36_trace n (snd (Next36 w)))
    = map (\<lambda>k. uint (N36 (snd (Next36 w))) mod 2 ^ 36 + int k * uint (Step36 (snd (Next36 w)))) [1..<Suc n]"
    using Suc.prems below by (intro Suc.IH) (simp_all add: st)
  have n1: "N36 (snd (Next36 w)) = N36 w + Step36 w" "Step36 (snd (Next36 w)) = Step36 w"
    by (simp_all add: st)
  have "Next36_trace (Suc n) w = (N36 w + Step36 w, fst (Next36 w)) # Next36_trace n (snd (Next36 w))"
    by (simp add: AddInt64_36_def)
  then have "map (\<lambda>r. uint (fst r) mod 2 ^ 36) (Next36_trace (Suc n) w)
    = uint (N36 w + Step36 w) mod 2 ^ 36
      # map (\<lambda>r. uint (fst r) mod 2 ^ 36) (Next36_trace n (snd (Next36 w)))"
    by (simp only: list.map fst_conv)
  also have "\<dots> = (uint (N36 w) mod 2 ^ 36 + uint (Step36 w))
      # map (\<lambda>k. (uint (N36 w) mod 2 ^ 36 + uint (Step36 w)) + int k * uint (Step36 w)) [1..<Suc n]"
    by (simp only: ih n1 add)
  also have "\<dots> = map (\<lambda>k. uint (N36 w) mod 2 ^ 36 + int k * uint (Step36 w)) [1..<Suc (Suc n)]"
    by (simp only: upt_shift list.map map_map o_def) (simp add: algebra_simps)
  finally show ?case .
qed


lemma Next_flag32:
  "snd (fst (Next w)) \<longleftrightarrow>
     uint (N w + Step w) mod 2 ^ 32 < 4123167744 \<and>
     3435973632 \<le> uint (N w + Step w) mod 2 ^ 32 \<and> uint (N w + Step w) mod 2 ^ 25 = 0"
proof (cases "4123167744 \<le> uint (N w + Step w) mod 2 ^ 32")
  case True
  then show ?thesis by (simp add: Next_panic32)
next
  case False
  then have "uint (N w + Step w) mod 2 ^ 32 < 4123167744" by simp
  then show ?thesis by (simp add: Next_below32)
qed

lemma Next_flag36:
  "snd (fst (Next36 w)) \<longleftrightarrow>
     uint (N36 w + Step36 w) mod 2 ^ 36 < 65970697216 \<and>
     54975581184 \<le> uint (N36 w + Step36 w) mod 2 ^ 36 \<and> uint (N36 w + Step36 w) mod 2 ^ 29 = 0"
proof (cases "65970697216 \<le> uint (N36 w + Step36 w) mod 2 ^ 36")
  case True
  then show ?thesis by (simp add: Next_panic36)
next
  case False
  then have "uint (N36 w + Step36 w) mod 2 ^ 36 < 65970697216" by simp
  then show ?thesis by (simp add: Next_below36)
qed

lemma Next_trace_flag32:
  "r \<in> set (Next_trace n w) \<Longrightarrow> snd (snd r) \<Longrightarrow> uint (fst r) mod 2 ^ 25 = 0"
proof (induction n arbitrary: w)
  case 0
  then show ?case by simp
next
  case (Suc n)
  from Suc.prems(1) consider "r = (N w + Step w, fst (Next w))" | "r \<in> set (Next_trace n (snd (Next w)))"
    by (auto simp add: AddInt64_def)
  then show ?case
  proof cases
    case 1
    then have "snd (fst (Next w))" using Suc.prems(2) by simp
    then show ?thesis using 1 by (simp add: Next_flag32)
  next
    case 2
    then show ?thesis using Suc.prems(2) by (rule Suc.IH)
  qed
qed

lemma Next_trace_flag36:
  "r \<in> set (Next36_trace n w) \<Longrightarrow> snd (snd r) \<Longrightarrow> uint (fst r) mod 2 ^ 29 = 0"
proof (induction n arbitrary: w)
  case 0
  then show ?case by simp
next
  case (Suc n)
  from Suc.prems(1) consider "r = (N36 w + Step36 w, fst (Next36 w))"
    | "r \<in> set (Next36_trace n (snd (Next36 w)))"
    by (auto simp add: AddInt64_36_def)
  then show ?case
  proof cases
    case 1
    then have "snd (fst (Next36 w))" using Suc.prems(2) by simp
    then show ?thesis using 1 by (simp add: Next_flag36)
  next
    case 2
    then show ?thesis using Suc.prems(2) by (rule Suc.IH)
  qed
qed

lemma length_Next_trace [simp]: "length (Next_trace n w) = n"
  by (induction n arbitrary: w) simp_all

lemma length_Next36_trace [simp]: "length (Next36_trace n w) = n"
  by (induction n arbitrary: w) simp_all

lemma multiples_apart:
  fixes a d m :: int
  assumes "a mod m = 0" "(a + d) mod m = 0" "0 < d" "d < m"
  shows False
proof -
  have "d mod m = 0"
    using assms(1,2) by (metis mod_add_left_eq add_0)
  moreover have "d mod m = d"
    using assms(3,4) by simp
  ultimately show False using assms(3) by simp
qed

lemma increasing_multiples:
  fixes a s :: int
  assumes "1 \<le> s"
  shows "sorted_wrt (<) (map (\<lambda>k. a + int k * s) [m..<n])"
proof -
  have "sorted_wrt (\<lambda>x y. a + int x * s < a + int y * s) [m..<n]"
    using assms by (intro sorted_wrt_mono_rel [OF _ sorted_wrt_upt]) simp
  then show ?thesis by (simp only: sorted_wrt_map)
qed

text \<open>
  C1: take a generator with a step that \<open>WithStep\<close> allows and a low segment below
  the panic threshold, and \<open>n\<close> calls of \<open>Next\<close> with no \<open>Reset\<close> between them, none of
  which panics on the threshold. Then the low segments of the raw words that the
  atomic adds return are, in the order of the adds,
  \<open>initial + step, initial + 2 * step, \<dots>, initial + n * step\<close>, without wrapping: a
  strictly increasing list, so without duplicates, whose neighbours differ by exactly
  the step. Both variants. (The low segment is below the threshold at the start after
  \<open>NewWUID\<close> and after every renewal, which installs a low segment of 0; a word set
  to a low segment within one step of the end of the segment would wrap on the first
  add.)
\<close>

theorem raw_low_segments_progress:
  "(Step w \<in> set allowed_steps \<and> uint (N w AND L32Mask) < uint PanicValue \<and>
    (\<forall>r\<in>set (Next_trace n w). fst (snd r) \<noteq> Panicked LowBitsAboutToRunOut) \<longrightarrow>
      map (\<lambda>r. uint (fst r AND L32Mask)) (Next_trace n w)
        = map (\<lambda>k. uint (N w AND L32Mask) + int k * uint (Step w)) [1..<Suc n] \<and>
      sorted_wrt (<) (map (\<lambda>r. uint (fst r AND L32Mask)) (Next_trace n w))) \<and>
   (Step36 w' \<in> set allowed_steps \<and> uint (N36 w' AND L36Mask) < uint PanicValue36 \<and>
    (\<forall>r\<in>set (Next36_trace n' w'). fst (snd r) \<noteq> Panicked LowBitsAboutToRunOut) \<longrightarrow>
      map (\<lambda>r. uint (fst r AND L36Mask)) (Next36_trace n' w')
        = map (\<lambda>k. uint (N36 w' AND L36Mask) + int k * uint (Step36 w')) [1..<Suc n'] \<and>
      sorted_wrt (<) (map (\<lambda>r. uint (fst r AND L36Mask)) (Next36_trace n' w')))"
proof (intro conjI impI)
  assume a: "Step w \<in> set allowed_steps \<and> uint (N w AND L32Mask) < uint PanicValue \<and>
    (\<forall>r\<in>set (Next_trace n w). fst (snd r) \<noteq> Panicked LowBitsAboutToRunOut)"
  then have b: "uint (N w) mod 2 ^ 32 < 4123167744"
    by (simp only: uint_low32 PanicValue_int)
  have s: "1 \<le> uint (Step w)"
    using a allowed_step_bounds [of "Step w"] by simp
  show e: "map (\<lambda>r. uint (fst r AND L32Mask)) (Next_trace n w)
        = map (\<lambda>k. uint (N w AND L32Mask) + int k * uint (Step w)) [1..<Suc n]"
    unfolding uint_low32 using a b by (intro Next_trace_low32) simp_all
  show "sorted_wrt (<) (map (\<lambda>r. uint (fst r AND L32Mask)) (Next_trace n w))"
    unfolding e using s by (rule increasing_multiples)
next
  assume a: "Step36 w' \<in> set allowed_steps \<and> uint (N36 w' AND L36Mask) < uint PanicValue36 \<and>
    (\<forall>r\<in>set (Next36_trace n' w'). fst (snd r) \<noteq> Panicked LowBitsAboutToRunOut)"
  then have b: "uint (N36 w') mod 2 ^ 36 < 65970697216"
    by (simp only: uint_low36 PanicValue36_int)
  have s: "1 \<le> uint (Step36 w')"
    using a allowed_step_bounds [of "Step36 w'"] by simp
  show e: "map (\<lambda>r. uint (fst r AND L36Mask)) (Next36_trace n' w')
        = map (\<lambda>k. uint (N36 w' AND L36Mask) + int k * uint (Step36 w')) [1..<Suc n']"
    unfolding uint_low36 using a b by (intro Next_trace_low36) simp_all
  show "sorted_wrt (<) (map (\<lambda>r. uint (fst r AND L36Mask)) (Next36_trace n' w'))"
    unfolding e using s by (rule increasing_multiples)
qed

lemma trace3_32:
  "Next_trace 3 ((zero_WUID ''a'' :: unit WUID)\<lparr>N := 0x50000000A, Step := 4\<rparr>)
   = [(0x50000000E, Returned 0x50000000E, False), (0x500000012, Returned 0x500000012, False),
      (0x500000016, Returned 0x500000016, False)]"
  by (simp add: numeral_3_eq_3 Next_def Next_rest_def AddInt64_def transform_def zero_WUID_def
      consts32 word_sle_eq Let_def)

lemma trace3_36:
  "Next36_trace 3 ((zero_WUID36 ''a'' :: unit WUID36)\<lparr>N36 := 0x500000000A, Step36 := 4\<rparr>)
   = [(0x500000000E, Returned 0x500000000E, False), (0x5000000012, Returned 0x5000000012, False),
      (0x5000000016, Returned 0x5000000016, False)]"
  by (simp add: numeral_3_eq_3 Next36_def Next36_rest_def AddInt64_36_def zero_WUID36_def
      consts36 word_sle_eq Let_def)

text \<open>
  C1 at concrete generators: from the low segment 10 with step 4, three calls see the
  raw low segments 14, 18 and 22, in both variants.
\<close>

theorem raw_low_segments_progress_witness:
  "map (\<lambda>r. uint (fst r AND L32Mask))
     (Next_trace 3 ((zero_WUID ''a'' :: unit WUID)\<lparr>N := 0x50000000A, Step := 4\<rparr>)) = [14, 18, 22] \<and>
   map (\<lambda>r. uint (fst r AND L36Mask))
     (Next36_trace 3 ((zero_WUID36 ''a'' :: unit WUID36)\<lparr>N36 := 0x500000000A, Step36 := 4\<rparr>)) = [14, 18, 22]"
  using raw_low_segments_progress [where w = "(zero_WUID ''a'' :: unit WUID)\<lparr>N := 0x50000000A, Step := 4\<rparr>"
      and n = 3 and w' = "(zero_WUID36 ''a'' :: unit WUID36)\<lparr>N36 := 0x500000000A, Step36 := 4\<rparr>" and n' = 3]
  by (simp add: trace3_32 trace3_36 allowed_steps_def consts32 consts36 upt_conv_Cons
      del: upt_Suc)

section \<open>When Next starts a renewal\<close>

text \<open>
  The words considered are those whose low segment is at most the panic threshold.
  From such a word one call of \<open>Next\<close>, with a step of at most 1024, cannot reach a
  renewal-interval boundary at or above the panic threshold: the next boundary above
  it is \<open>123 * 2^25\<close> (\<open>123 * 2^29\<close>).
\<close>

lemma no_boundary_at_panic32:
  fixes v :: int
  assumes "4123167744 \<le> v" and "v \<le> 4123167744 + 1024"
  shows "v mod 2 ^ 25 \<noteq> 0"
proof
  assume "v mod 2 ^ 25 = 0"
  then have "(33554432 :: int) dvd v" by (simp add: mod_eq_0_iff_dvd)
  then obtain k where v: "v = 33554432 * k" by (rule dvdE)
  consider "k \<le> 122" | "123 \<le> k" by linarith
  then show False using v assms by cases linarith+
qed

lemma no_boundary_at_panic36:
  fixes v :: int
  assumes "65970697216 \<le> v" and "v \<le> 65970697216 + 1024"
  shows "v mod 2 ^ 29 \<noteq> 0"
proof
  assume "v mod 2 ^ 29 = 0"
  then have "(536870912 :: int) dvd v" by (simp add: mod_eq_0_iff_dvd)
  then obtain k where v: "v = 536870912 * k" by (rule dvdE)
  consider "k \<le> 122" | "123 \<le> k" by linarith
  then show False using v assms by cases linarith+
qed

lemma Next_low32:
  assumes "Step w \<in> set allowed_steps" and "uint (N w) mod 2 ^ 32 \<le> 4123167744"
  shows "uint (N w + Step w) mod 2 ^ 32 = uint (N w) mod 2 ^ 32 + uint (Step w)"
proof -
  have "uint (Step w) \<le> 1024" using allowed_step_bounds [OF assms(1)] by simp
  then have "uint (N w) mod 2 ^ 32 + uint (Step w) < 2 ^ 32" using assms(2) by simp
  then show ?thesis by (rule low32_add)
qed

lemma Next_flag_reachable32:
  assumes "Step w \<in> set allowed_steps" and "uint (N w) mod 2 ^ 32 \<le> 4123167744"
  shows "snd (fst (Next w)) \<longleftrightarrow>
     3435973632 \<le> uint (N w + Step w) mod 2 ^ 32 \<and> uint (N w + Step w) mod 2 ^ 25 = 0"
proof -
  let ?v = "uint (N w + Step w) mod 2 ^ 32"
  have s: "1 \<le> uint (Step w)" "uint (Step w) \<le> 1024"
    using allowed_step_bounds [OF assms(1)] by simp_all
  have v: "?v = uint (N w) mod 2 ^ 32 + uint (Step w)"
    using assms by (rule Next_low32)
  have le: "?v \<le> 4123167744 + 1024" using v s assms(2) by simp
  have m: "uint (N w + Step w) mod 2 ^ 25 = ?v mod 2 ^ 25"
    by (simp add: mod_mod_cancel le_imp_power_dvd)
  have imp: "?v < 4123167744" if z: "uint (N w + Step w) mod 2 ^ 25 = 0"
  proof (rule ccontr)
    assume "\<not> ?v < 4123167744"
    then have "4123167744 \<le> ?v" by simp
    then have "?v mod 2 ^ 25 \<noteq> 0" using le by (rule no_boundary_at_panic32)
    then show False using z m by simp
  qed
  show ?thesis
  proof
    assume "snd (fst (Next w))"
    then show "3435973632 \<le> ?v \<and> uint (N w + Step w) mod 2 ^ 25 = 0"
      by (simp only: Next_flag32)
  next
    assume a: "3435973632 \<le> ?v \<and> uint (N w + Step w) mod 2 ^ 25 = 0"
    then have "uint (N w + Step w) mod 2 ^ 25 = 0" by (rule conjunct2)
    then have "?v < 4123167744" by (rule imp)
    then show "snd (fst (Next w))" using a by (simp only: Next_flag32)
  qed
qed

lemma Next_keeps_reachable32:
  assumes "Step w \<in> set allowed_steps" and "uint (N w) mod 2 ^ 32 \<le> 4123167744"
  shows "uint (N (snd (Next w))) mod 2 ^ 32 \<le> 4123167744" and "Step (snd (Next w)) = Step w"
proof -
  show "uint (N (snd (Next w))) mod 2 ^ 32 \<le> 4123167744"
  proof (cases "4123167744 \<le> uint (N w + Step w) mod 2 ^ 32")
    case True
    have "uint (((N w + Step w) AND H32Mask) OR PanicValue) mod 2 ^ 32 = 4123167744"
      using uint_low32 [of "((N w + Step w) AND H32Mask) OR PanicValue"]
      by (simp add: pinned32 PanicValue_int)
    then show ?thesis by (simp add: Next_panic32 [OF True])
  next
    case False
    then have b: "uint (N w + Step w) mod 2 ^ 32 < 4123167744" by simp
    show ?thesis using b by (simp add: Next_below32 [OF b])
  qed
  show "Step (snd (Next w)) = Step w"
  proof (cases "4123167744 \<le> uint (N w + Step w) mod 2 ^ 32")
    case True
    then show ?thesis by (simp add: Next_panic32 [OF True])
  next
    case False
    then have b: "uint (N w + Step w) mod 2 ^ 32 < 4123167744" by simp
    show ?thesis by (simp add: Next_below32 [OF b])
  qed
qed

lemma Next_trace_scheduled32:
  assumes "Step w \<in> set allowed_steps" and "uint (N w) mod 2 ^ 32 \<le> 4123167744"
    and "i < n" and "snd (snd (Next_trace n w ! i))"
  shows "uint (fst (Next_trace n w ! i)) mod 2 ^ 32
           = uint (N w) mod 2 ^ 32 + int (Suc i) * uint (Step w) \<and>
         uint (fst (Next_trace n w ! i)) mod 2 ^ 32 < 4123167744"
  using assms
proof (induction n arbitrary: w i)
  case 0
  then show ?case by simp
next
  case (Suc n)
  show ?case
  proof (cases i)
    case 0
    then have f: "snd (fst (Next w))" using Suc.prems(4) by simp
    then have "uint (N w + Step w) mod 2 ^ 32 < 4123167744" by (simp add: Next_flag32)
    then show ?thesis
      using 0 Next_low32 [OF Suc.prems(1,2)] by (simp add: AddInt64_def)
  next
    case (Suc k)
    let ?w1 = "snd (Next w)"
    have k: "k < n" using Suc Suc.prems(3) by simp
    have f: "snd (snd (Next_trace n ?w1 ! k))" using Suc Suc.prems(4) by simp
    note r = Next_keeps_reachable32 [OF Suc.prems(1,2)]
    have st: "Step ?w1 \<in> set allowed_steps" using r(2) Suc.prems(1) by simp
    have ih: "uint (fst (Next_trace n ?w1 ! k)) mod 2 ^ 32
           = uint (N ?w1) mod 2 ^ 32 + int (Suc k) * uint (Step w) \<and>
         uint (fst (Next_trace n ?w1 ! k)) mod 2 ^ 32 < 4123167744"
      using Suc.IH [OF st r(1) k f] r(2) by simp
    have s: "1 \<le> uint (Step w)" using allowed_step_bounds [OF Suc.prems(1)] by simp
    have below: "uint (N w + Step w) mod 2 ^ 32 < 4123167744"
    proof (rule ccontr)
      assume "\<not> uint (N w + Step w) mod 2 ^ 32 < 4123167744"
      then have p: "4123167744 \<le> uint (N w + Step w) mod 2 ^ 32" by simp
      have "uint (((N w + Step w) AND H32Mask) OR PanicValue) mod 2 ^ 32 = 4123167744"
        using uint_low32 [of "((N w + Step w) AND H32Mask) OR PanicValue"]
        by (simp add: pinned32 PanicValue_int)
      then have "uint (N ?w1) mod 2 ^ 32 = 4123167744" by (simp add: Next_panic32 [OF p])
      moreover have "0 \<le> int (Suc k) * uint (Step w)" using s by simp
      ultimately show False using ih by linarith
    qed
    have "N ?w1 = N w + Step w" by (simp add: Next_below32 [OF below])
    then have "uint (N ?w1) mod 2 ^ 32 = uint (N w) mod 2 ^ 32 + uint (Step w)"
      using Next_low32 [OF Suc.prems(1,2)] by simp
    then show ?thesis using ih Suc by (simp add: algebra_simps)
  qed
qed

lemma renewals_apart_reachable32:
  assumes "Step w \<in> set allowed_steps" and "uint (N w) mod 2 ^ 32 \<le> 4123167744"
    and "i < j" and "j < n"
    and "snd (snd (Next_trace n w ! i))"
    and "int (j - i) * uint (Step w) < 2 ^ 25"
  shows "\<not> snd (snd (Next_trace n w ! j))"
proof
  assume fj: "snd (snd (Next_trace n w ! j))"
  have i: "i < n" using assms(3,4) by simp
  note ti = Next_trace_scheduled32 [OF assms(1,2) i assms(5)]
  note tj = Next_trace_scheduled32 [OF assms(1,2) assms(4) fj]
  have mi: "uint (fst (Next_trace n w ! i)) mod 2 ^ 25 = 0"
    using assms(5) i by (intro Next_trace_flag32 [of _ n w]) simp_all
  have mj: "uint (fst (Next_trace n w ! j)) mod 2 ^ 25 = 0"
    using fj assms(4) by (intro Next_trace_flag32 [of _ n w]) simp_all
  have c: "(x mod 2 ^ 32) mod 2 ^ 25 = x mod 2 ^ 25" for x :: int
    by (simp add: mod_mod_cancel le_imp_power_dvd)
  let ?a = "uint (N w) mod 2 ^ 32 + int (Suc i) * uint (Step w)"
  let ?d = "int (j - i) * uint (Step w)"
  have "(uint (fst (Next_trace n w ! i)) mod 2 ^ 32) mod 2 ^ 25 = 0"
    using mi by (simp only: c)
  then have a: "?a mod 2 ^ 25 = 0" by (simp only: ti [THEN conjunct1])
  have "int (Suc j) = int (Suc i) + int (j - i)" using assms(3) by simp
  then have e: "uint (N w) mod 2 ^ 32 + int (Suc j) * uint (Step w) = ?a + ?d"
    by (simp only: distrib_right add.assoc)
  have "(uint (fst (Next_trace n w ! j)) mod 2 ^ 32) mod 2 ^ 25 = 0"
    using mj by (simp only: c)
  then have b: "(?a + ?d) mod 2 ^ 25 = 0" by (simp only: tj [THEN conjunct1] e)
  have s: "1 \<le> uint (Step w)" using allowed_step_bounds [OF assms(1)] by simp
  have "0 < int (j - i)" using assms(3) by simp
  then have d: "0 < ?d" using s by simp
  show False using a b d assms(6) by (rule multiples_apart)
qed

lemma Next_low36:
  assumes "Step36 w \<in> set allowed_steps" and "uint (N36 w) mod 2 ^ 36 \<le> 65970697216"
  shows "uint (N36 w + Step36 w) mod 2 ^ 36 = uint (N36 w) mod 2 ^ 36 + uint (Step36 w)"
proof -
  have "uint (Step36 w) \<le> 1024" using allowed_step_bounds [OF assms(1)] by simp
  then have "uint (N36 w) mod 2 ^ 36 + uint (Step36 w) < 2 ^ 36" using assms(2) by simp
  then show ?thesis by (rule low36_add)
qed

lemma Next_flag_reachable36:
  assumes "Step36 w \<in> set allowed_steps" and "uint (N36 w) mod 2 ^ 36 \<le> 65970697216"
  shows "snd (fst (Next36 w)) \<longleftrightarrow>
     54975581184 \<le> uint (N36 w + Step36 w) mod 2 ^ 36 \<and> uint (N36 w + Step36 w) mod 2 ^ 29 = 0"
proof -
  let ?v = "uint (N36 w + Step36 w) mod 2 ^ 36"
  have s: "1 \<le> uint (Step36 w)" "uint (Step36 w) \<le> 1024"
    using allowed_step_bounds [OF assms(1)] by simp_all
  have v: "?v = uint (N36 w) mod 2 ^ 36 + uint (Step36 w)"
    using assms by (rule Next_low36)
  have le: "?v \<le> 65970697216 + 1024" using v s assms(2) by simp
  have m: "uint (N36 w + Step36 w) mod 2 ^ 29 = ?v mod 2 ^ 29"
    by (simp add: mod_mod_cancel le_imp_power_dvd)
  have imp: "?v < 65970697216" if z: "uint (N36 w + Step36 w) mod 2 ^ 29 = 0"
  proof (rule ccontr)
    assume "\<not> ?v < 65970697216"
    then have "65970697216 \<le> ?v" by simp
    then have "?v mod 2 ^ 29 \<noteq> 0" using le by (rule no_boundary_at_panic36)
    then show False using z m by simp
  qed
  show ?thesis
  proof
    assume "snd (fst (Next36 w))"
    then show "54975581184 \<le> ?v \<and> uint (N36 w + Step36 w) mod 2 ^ 29 = 0"
      by (simp only: Next_flag36)
  next
    assume a: "54975581184 \<le> ?v \<and> uint (N36 w + Step36 w) mod 2 ^ 29 = 0"
    then have "uint (N36 w + Step36 w) mod 2 ^ 29 = 0" by (rule conjunct2)
    then have "?v < 65970697216" by (rule imp)
    then show "snd (fst (Next36 w))" using a by (simp only: Next_flag36)
  qed
qed

lemma Next_keeps_reachable36:
  assumes "Step36 w \<in> set allowed_steps" and "uint (N36 w) mod 2 ^ 36 \<le> 65970697216"
  shows "uint (N36 (snd (Next36 w))) mod 2 ^ 36 \<le> 65970697216" and "Step36 (snd (Next36 w)) = Step36 w"
proof -
  show "uint (N36 (snd (Next36 w))) mod 2 ^ 36 \<le> 65970697216"
  proof (cases "65970697216 \<le> uint (N36 w + Step36 w) mod 2 ^ 36")
    case True
    have "uint (((N36 w + Step36 w) AND H28Mask) OR PanicValue36) mod 2 ^ 36 = 65970697216"
      using uint_low36 [of "((N36 w + Step36 w) AND H28Mask) OR PanicValue36"]
      by (simp add: pinned36 PanicValue36_int)
    then show ?thesis by (simp add: Next_panic36 [OF True])
  next
    case False
    then have b: "uint (N36 w + Step36 w) mod 2 ^ 36 < 65970697216" by simp
    show ?thesis using b by (simp add: Next_below36 [OF b])
  qed
  show "Step36 (snd (Next36 w)) = Step36 w"
  proof (cases "65970697216 \<le> uint (N36 w + Step36 w) mod 2 ^ 36")
    case True
    then show ?thesis by (simp add: Next_panic36 [OF True])
  next
    case False
    then have b: "uint (N36 w + Step36 w) mod 2 ^ 36 < 65970697216" by simp
    show ?thesis by (simp add: Next_below36 [OF b])
  qed
qed

lemma Next_trace_scheduled36:
  assumes "Step36 w \<in> set allowed_steps" and "uint (N36 w) mod 2 ^ 36 \<le> 65970697216"
    and "i < n" and "snd (snd (Next36_trace n w ! i))"
  shows "uint (fst (Next36_trace n w ! i)) mod 2 ^ 36
           = uint (N36 w) mod 2 ^ 36 + int (Suc i) * uint (Step36 w) \<and>
         uint (fst (Next36_trace n w ! i)) mod 2 ^ 36 < 65970697216"
  using assms
proof (induction n arbitrary: w i)
  case 0
  then show ?case by simp
next
  case (Suc n)
  show ?case
  proof (cases i)
    case 0
    then have f: "snd (fst (Next36 w))" using Suc.prems(4) by simp
    then have "uint (N36 w + Step36 w) mod 2 ^ 36 < 65970697216" by (simp add: Next_flag36)
    then show ?thesis
      using 0 Next_low36 [OF Suc.prems(1,2)] by (simp add: AddInt64_36_def)
  next
    case (Suc k)
    let ?w1 = "snd (Next36 w)"
    have k: "k < n" using Suc Suc.prems(3) by simp
    have f: "snd (snd (Next36_trace n ?w1 ! k))" using Suc Suc.prems(4) by simp
    note r = Next_keeps_reachable36 [OF Suc.prems(1,2)]
    have st: "Step36 ?w1 \<in> set allowed_steps" using r(2) Suc.prems(1) by simp
    have ih: "uint (fst (Next36_trace n ?w1 ! k)) mod 2 ^ 36
           = uint (N36 ?w1) mod 2 ^ 36 + int (Suc k) * uint (Step36 w) \<and>
         uint (fst (Next36_trace n ?w1 ! k)) mod 2 ^ 36 < 65970697216"
      using Suc.IH [OF st r(1) k f] r(2) by simp
    have s: "1 \<le> uint (Step36 w)" using allowed_step_bounds [OF Suc.prems(1)] by simp
    have below: "uint (N36 w + Step36 w) mod 2 ^ 36 < 65970697216"
    proof (rule ccontr)
      assume "\<not> uint (N36 w + Step36 w) mod 2 ^ 36 < 65970697216"
      then have p: "65970697216 \<le> uint (N36 w + Step36 w) mod 2 ^ 36" by simp
      have "uint (((N36 w + Step36 w) AND H28Mask) OR PanicValue36) mod 2 ^ 36 = 65970697216"
        using uint_low36 [of "((N36 w + Step36 w) AND H28Mask) OR PanicValue36"]
        by (simp add: pinned36 PanicValue36_int)
      then have "uint (N36 ?w1) mod 2 ^ 36 = 65970697216" by (simp add: Next_panic36 [OF p])
      moreover have "0 \<le> int (Suc k) * uint (Step36 w)" using s by simp
      ultimately show False using ih by linarith
    qed
    have "N36 ?w1 = N36 w + Step36 w" by (simp add: Next_below36 [OF below])
    then have "uint (N36 ?w1) mod 2 ^ 36 = uint (N36 w) mod 2 ^ 36 + uint (Step36 w)"
      using Next_low36 [OF Suc.prems(1,2)] by simp
    then show ?thesis using ih Suc by (simp add: algebra_simps)
  qed
qed

lemma renewals_apart_reachable36:
  assumes "Step36 w \<in> set allowed_steps" and "uint (N36 w) mod 2 ^ 36 \<le> 65970697216"
    and "i < j" and "j < n"
    and "snd (snd (Next36_trace n w ! i))"
    and "int (j - i) * uint (Step36 w) < 2 ^ 29"
  shows "\<not> snd (snd (Next36_trace n w ! j))"
proof
  assume fj: "snd (snd (Next36_trace n w ! j))"
  have i: "i < n" using assms(3,4) by simp
  note ti = Next_trace_scheduled36 [OF assms(1,2) i assms(5)]
  note tj = Next_trace_scheduled36 [OF assms(1,2) assms(4) fj]
  have mi: "uint (fst (Next36_trace n w ! i)) mod 2 ^ 29 = 0"
    using assms(5) i by (intro Next_trace_flag36 [of _ n w]) simp_all
  have mj: "uint (fst (Next36_trace n w ! j)) mod 2 ^ 29 = 0"
    using fj assms(4) by (intro Next_trace_flag36 [of _ n w]) simp_all
  have c: "(x mod 2 ^ 36) mod 2 ^ 29 = x mod 2 ^ 29" for x :: int
    by (simp add: mod_mod_cancel le_imp_power_dvd)
  let ?a = "uint (N36 w) mod 2 ^ 36 + int (Suc i) * uint (Step36 w)"
  let ?d = "int (j - i) * uint (Step36 w)"
  have "(uint (fst (Next36_trace n w ! i)) mod 2 ^ 36) mod 2 ^ 29 = 0"
    using mi by (simp only: c)
  then have a: "?a mod 2 ^ 29 = 0" by (simp only: ti [THEN conjunct1])
  have "int (Suc j) = int (Suc i) + int (j - i)" using assms(3) by simp
  then have e: "uint (N36 w) mod 2 ^ 36 + int (Suc j) * uint (Step36 w) = ?a + ?d"
    by (simp only: distrib_right add.assoc)
  have "(uint (fst (Next36_trace n w ! j)) mod 2 ^ 36) mod 2 ^ 29 = 0"
    using mj by (simp only: c)
  then have b: "(?a + ?d) mod 2 ^ 29 = 0" by (simp only: tj [THEN conjunct1] e)
  have s: "1 \<le> uint (Step36 w)" using allowed_step_bounds [OF assms(1)] by simp
  have "0 < int (j - i)" using assms(3) by simp
  then have d: "0 < ?d" using s by simp
  show False using a b d assms(6) by (rule multiples_apart)
qed

text \<open>
  C4: a call of \<open>Next\<close> starts a renewal if and only if the low segment of the word
  its add returned is at or above the critical threshold and has no bit under the
  renewal-interval mask. This holds of every generator with an allowed step whose
  counter word has a low segment at most the panic threshold. The word \<open>0\<close> of a new
  generator is such a word, and \<open>Next\<close> keeps the step and leaves such a word again,
  also when it panics, since it then pins the low segment at the threshold. And in a
  run of calls from such a word, a call that started a renewal is followed by no
  other such call while the low segment has advanced by no more than the mask, that
  is by less than one renewal interval: one renewal per boundary, not one per call
  past the critical threshold. Both variants.
\<close>

theorem renewal_scheduled_iff_on_boundary:
  "(Step w \<in> set allowed_steps \<and> uint (N w AND L32Mask) \<le> uint PanicValue \<longrightarrow>
      (snd (fst (Next w)) \<longleftrightarrow>
         uint CriticalValue \<le> uint ((N w + Step w) AND L32Mask) \<and>
         ((N w + Step w) AND L32Mask) AND RenewIntervalMask = 0) \<and>
      Step (snd (Next w)) = Step w \<and>
      uint (N (snd (Next w)) AND L32Mask) \<le> uint PanicValue) \<and>
   (Step w \<in> set allowed_steps \<and> uint (N w AND L32Mask) \<le> uint PanicValue \<and>
    i < j \<and> j < n \<and> snd (snd (Next_trace n w ! i)) \<and>
    int (j - i) * uint (Step w) \<le> uint RenewIntervalMask
      \<longrightarrow> \<not> snd (snd (Next_trace n w ! j))) \<and>
   (Step36 w' \<in> set allowed_steps \<and> uint (N36 w' AND L36Mask) \<le> uint PanicValue36 \<longrightarrow>
      (snd (fst (Next36 w')) \<longleftrightarrow>
         uint CriticalValue36 \<le> uint ((N36 w' + Step36 w') AND L36Mask) \<and>
         ((N36 w' + Step36 w') AND L36Mask) AND RenewIntervalMask36 = 0) \<and>
      Step36 (snd (Next36 w')) = Step36 w' \<and>
      uint (N36 (snd (Next36 w')) AND L36Mask) \<le> uint PanicValue36) \<and>
   (Step36 w' \<in> set allowed_steps \<and> uint (N36 w' AND L36Mask) \<le> uint PanicValue36 \<and>
    i' < j' \<and> j' < n' \<and> snd (snd (Next36_trace n' w' ! i')) \<and>
    int (j' - i') * uint (Step36 w') \<le> uint RenewIntervalMask36
      \<longrightarrow> \<not> snd (snd (Next36_trace n' w' ! j')))"
proof (intro conjI impI)
  assume a: "Step w \<in> set allowed_steps \<and> uint (N w AND L32Mask) \<le> uint PanicValue"
  then have st: "Step w \<in> set allowed_steps" and lo: "uint (N w) mod 2 ^ 32 \<le> 4123167744"
    by (simp_all only: uint_low32 PanicValue_int)
  have c: "uint CriticalValue = 3435973632" by (simp add: consts32)
  show "snd (fst (Next w)) \<longleftrightarrow>
         uint CriticalValue \<le> uint ((N w + Step w) AND L32Mask) \<and>
         ((N w + Step w) AND L32Mask) AND RenewIntervalMask = 0"
    by (simp only: Next_flag_reachable32 [OF st lo] uint_low32 boundary_test32 c)
  show "Step (snd (Next w)) = Step w"
    using st lo by (rule Next_keeps_reachable32)
  show "uint (N (snd (Next w)) AND L32Mask) \<le> uint PanicValue"
    using Next_keeps_reachable32(1) [OF st lo] by (simp only: uint_low32 PanicValue_int)
next
  assume a: "Step w \<in> set allowed_steps \<and> uint (N w AND L32Mask) \<le> uint PanicValue \<and>
    i < j \<and> j < n \<and> snd (snd (Next_trace n w ! i)) \<and>
    int (j - i) * uint (Step w) \<le> uint RenewIntervalMask"
  then have b: "uint (N w) mod 2 ^ 32 \<le> 4123167744"
    by (simp only: uint_low32 PanicValue_int)
  have m: "uint RenewIntervalMask < 2 ^ 25" by (simp add: consts32)
  have "int (j - i) * uint (Step w) \<le> uint RenewIntervalMask" using a by blast
  then have d: "int (j - i) * uint (Step w) < 2 ^ 25" using m by (rule le_less_trans)
  show "\<not> snd (snd (Next_trace n w ! j))"
    using a b d by (intro renewals_apart_reachable32 [where i = i]) simp_all
next
  assume a: "Step36 w' \<in> set allowed_steps \<and> uint (N36 w' AND L36Mask) \<le> uint PanicValue36"
  then have st: "Step36 w' \<in> set allowed_steps" and lo: "uint (N36 w') mod 2 ^ 36 \<le> 65970697216"
    by (simp_all only: uint_low36 PanicValue36_int)
  have c: "uint CriticalValue36 = 54975581184" by (simp add: consts36)
  show "snd (fst (Next36 w')) \<longleftrightarrow>
         uint CriticalValue36 \<le> uint ((N36 w' + Step36 w') AND L36Mask) \<and>
         ((N36 w' + Step36 w') AND L36Mask) AND RenewIntervalMask36 = 0"
    by (simp only: Next_flag_reachable36 [OF st lo] uint_low36 boundary_test36 c)
  show "Step36 (snd (Next36 w')) = Step36 w'"
    using st lo by (rule Next_keeps_reachable36)
  show "uint (N36 (snd (Next36 w')) AND L36Mask) \<le> uint PanicValue36"
    using Next_keeps_reachable36(1) [OF st lo] by (simp only: uint_low36 PanicValue36_int)
next
  assume a: "Step36 w' \<in> set allowed_steps \<and> uint (N36 w' AND L36Mask) \<le> uint PanicValue36 \<and>
    i' < j' \<and> j' < n' \<and> snd (snd (Next36_trace n' w' ! i')) \<and>
    int (j' - i') * uint (Step36 w') \<le> uint RenewIntervalMask36"
  then have b: "uint (N36 w') mod 2 ^ 36 \<le> 65970697216"
    by (simp only: uint_low36 PanicValue36_int)
  have m: "uint RenewIntervalMask36 < 2 ^ 29" by (simp add: consts36)
  have "int (j' - i') * uint (Step36 w') \<le> uint RenewIntervalMask36" using a by blast
  then have d: "int (j' - i') * uint (Step36 w') < 2 ^ 29" using m by (rule le_less_trans)
  show "\<not> snd (snd (Next36_trace n' w' ! j'))"
    using a b d by (intro renewals_apart_reachable36 [where i = i']) simp_all
qed

lemma trace3_Bye:
  "Next_trace 3 ((zero_WUID ''a'' :: unit WUID)\<lparr>N := 3456106495\<rparr>)
   = [(3456106496, Returned 3456106496, True), (3456106497, Returned 3456106497, False),
      (3456106498, Returned 3456106498, False)]"
  by (simp add: numeral_3_eq_3 Next_def Next_rest_def AddInt64_def transform_def zero_WUID_def
      consts32 word_sle_eq Let_def)

lemma trace3_Bye36:
  "Next36_trace 3 ((zero_WUID36 ''a'' :: unit WUID36)\<lparr>N36 := 55297703935\<rparr>)
   = [(55297703936, Returned 55297703936, True), (55297703937, Returned 55297703937, False),
      (55297703938, Returned 55297703938, False)]"
  by (simp add: numeral_3_eq_3 Next36_def Next36_rest_def AddInt64_36_def zero_WUID36_def
      consts36 word_sle_eq Let_def)

text \<open>
  C4 at concrete generators: from \<open>Bye\<close>, one below the first boundary above the
  critical threshold, the first of three calls starts a renewal and the third does
  not, a single call from the boundary itself, past the critical threshold but off
  the boundary, starts none, and a call from the panic threshold panics and starts
  none; the same in the 28/36 variant from one below \<open>103 * 2^29\<close>.
\<close>

theorem renewal_scheduled_iff_on_boundary_witness:
  "Bye = 3456106495 \<and>
   uint (N ((zero_WUID ''a'' :: unit WUID)\<lparr>N := 3456106495\<rparr>) AND L32Mask) \<le> uint PanicValue \<and>
   snd (fst (Next ((zero_WUID ''a'' :: unit WUID)\<lparr>N := 3456106495\<rparr>))) \<and>
   \<not> snd (fst (Next ((zero_WUID ''a'' :: unit WUID)\<lparr>N := 3456106496\<rparr>))) \<and>
   fst (fst (Next ((zero_WUID ''a'' :: unit WUID)\<lparr>N := 4123167744\<rparr>)))
     = Panicked LowBitsAboutToRunOut \<and>
   \<not> snd (fst (Next ((zero_WUID ''a'' :: unit WUID)\<lparr>N := 4123167744\<rparr>))) \<and>
   snd (snd (Next_trace 3 ((zero_WUID ''a'' :: unit WUID)\<lparr>N := 3456106495\<rparr>) ! 0)) \<and>
   \<not> snd (snd (Next_trace 3 ((zero_WUID ''a'' :: unit WUID)\<lparr>N := 3456106495\<rparr>) ! 2)) \<and>
   uint (N36 ((zero_WUID36 ''a'' :: unit WUID36)\<lparr>N36 := 55297703935\<rparr>) AND L36Mask)
     \<le> uint PanicValue36 \<and>
   snd (fst (Next36 ((zero_WUID36 ''a'' :: unit WUID36)\<lparr>N36 := 55297703935\<rparr>))) \<and>
   snd (snd (Next36_trace 3 ((zero_WUID36 ''a'' :: unit WUID36)\<lparr>N36 := 55297703935\<rparr>) ! 0)) \<and>
   \<not> snd (snd (Next36_trace 3 ((zero_WUID36 ''a'' :: unit WUID36)\<lparr>N36 := 55297703935\<rparr>) ! 2))"
proof -
  let ?w = "(zero_WUID ''a'' :: unit WUID)\<lparr>N := 3456106495\<rparr>"
  let ?u = "(zero_WUID ''a'' :: unit WUID)\<lparr>N := 3456106496\<rparr>"
  let ?w' = "(zero_WUID36 ''a'' :: unit WUID36)\<lparr>N36 := 55297703935\<rparr>"
  note t = renewal_scheduled_iff_on_boundary [where w = ?w and n = 3 and i = 0 and j = 2
      and w' = ?w' and n' = 3 and i' = 0 and j' = 2]
  note u = renewal_scheduled_iff_on_boundary [where w = ?u]
  have s: "Step ?w = 1" "N ?w = 3456106495" "Step36 ?w' = 1" "N36 ?w' = 55297703935"
    "Step ?u = 1" "N ?u = 3456106496"
    by (simp_all add: zero_WUID_def zero_WUID36_def)
  have r: "Step ?w \<in> set allowed_steps \<and> uint (N ?w AND L32Mask) \<le> uint PanicValue"
    by (simp add: s allowed_steps_def consts32)
  have r2: "Step ?u \<in> set allowed_steps \<and> uint (N ?u AND L32Mask) \<le> uint PanicValue"
    by (simp add: s allowed_steps_def consts32)
  have r': "Step36 ?w' \<in> set allowed_steps \<and> uint (N36 ?w' AND L36Mask) \<le> uint PanicValue36"
    by (simp add: s allowed_steps_def consts36)
  have f: "snd (fst (Next ?w))"
    by (rule t [THEN conjunct1, THEN mp, OF r, THEN conjunct1, THEN iffD2])
      (simp add: s consts32)
  have iff: "snd (fst (Next ?u)) \<longleftrightarrow>
         uint CriticalValue \<le> uint ((N ?u + Step ?u) AND L32Mask) \<and>
         ((N ?u + Step ?u) AND L32Mask) AND RenewIntervalMask = 0"
    by (rule u [THEN conjunct1, THEN mp, OF r2, THEN conjunct1])
  have "\<not> (uint CriticalValue \<le> uint ((N ?u + Step ?u) AND L32Mask) \<and>
         ((N ?u + Step ?u) AND L32Mask) AND RenewIntervalMask = 0)"
    by (simp add: s consts32)
  then have f2: "\<not> snd (fst (Next ?u))"
    unfolding iff .
  let ?p = "(zero_WUID ''a'' :: unit WUID)\<lparr>N := 4123167744\<rparr>"
  note q = renewal_scheduled_iff_on_boundary [where w = ?p]
  have sp: "Step ?p = 1" "N ?p = 4123167744" by (simp_all add: zero_WUID_def)
  have r3: "Step ?p \<in> set allowed_steps \<and> uint (N ?p AND L32Mask) \<le> uint PanicValue"
    by (simp add: sp allowed_steps_def consts32)
  have iff3: "snd (fst (Next ?p)) \<longleftrightarrow>
         uint CriticalValue \<le> uint ((N ?p + Step ?p) AND L32Mask) \<and>
         ((N ?p + Step ?p) AND L32Mask) AND RenewIntervalMask = 0"
    by (rule q [THEN conjunct1, THEN mp, OF r3, THEN conjunct1])
  have "\<not> (uint CriticalValue \<le> uint ((N ?p + Step ?p) AND L32Mask) \<and>
         ((N ?p + Step ?p) AND L32Mask) AND RenewIntervalMask = 0)"
    by (simp add: sp consts32)
  then have f3: "\<not> snd (fst (Next ?p))"
    unfolding iff3 .
  have p3: "fst (fst (Next ?p)) = Panicked LowBitsAboutToRunOut"
    by (simp add: Next_threshold_iff32 sp)
  have g: "\<not> snd (snd (Next_trace 3 ?w ! 2))"
    by (rule t [THEN conjunct2, THEN conjunct1, THEN mp])
      (simp add: s trace3_Bye allowed_steps_def consts32)
  have f': "snd (fst (Next36 ?w'))"
    by (rule t [THEN conjunct2, THEN conjunct2, THEN conjunct1, THEN mp, OF r', THEN conjunct1, THEN iffD2])
      (simp add: s consts36)
  have g': "\<not> snd (snd (Next36_trace 3 ?w' ! 2))"
    by (rule t [THEN conjunct2, THEN conjunct2, THEN conjunct2, THEN mp])
      (simp add: s trace3_Bye36 allowed_steps_def consts36)
  have h: "snd (snd (Next_trace 3 ?w ! 0))" "snd (snd (Next36_trace 3 ?w' ! 0))"
    by (simp_all add: trace3_Bye trace3_Bye36)
  have b: "Bye = 3456106495" by (rule consts32)
  show ?thesis
    using b r [THEN conjunct2] f f2 p3 f3 h(1) g r' [THEN conjunct2] f' h(2) g' by (intro conjI)
qed

section \<open>The output transforms with sectioning\<close>

lemma obfuscation_mask_42: "obfuscation_mask 42 = 0x2759ea27d4727622"
  by (simp add: obfuscation_mask_def Let_def)

lemma sectioned_obfuscated_generator:
  "NewWUID_sectioned_obfuscated ''alpha'' 1 42
   = Returned ((zero_WUID ''alpha'' :: unit WUID)\<lparr>Flags := 1, Obfuscation := True, Monolithic := False,
       ObfuscationMask := 0x2759ea27d4727622, Section := 0x1000000000000000\<rparr>)"
  by (simp add: NewWUID_sectioned_obfuscated_def WithSection_def WithObfuscation_def NewWUID_def
      zero_WUID_def obfuscation_mask_42 word_sless_alt)

lemma sectioned_generator:
  "NewWUID_sectioned ''alpha'' 1
   = Returned ((zero_WUID ''alpha'' :: unit WUID)\<lparr>Monolithic := False, Section := 0x1000000000000000\<rparr>)"
  by (simp add: NewWUID_sectioned_def WithSection_def NewWUID_def zero_WUID_def word_sless_alt)

text \<open>
  C6 does not hold of the 32/32 variant when sectioning and obfuscation are both
  configured. The obfuscating branches of \<open>Next\<close> keep only the bits of the word under
  \<open>H32Mask\<close>, bits 32 to 52, so the section tag in bits 60 to 62 is lost. For the
  generator \<open>NewWUID(''alpha'', nil, WithSection(1), WithObfuscation(42))\<close>, after
  \<open>Reset(1 << 32)\<close> the word is \<open>0x1000000100000000\<close>; \<open>Next\<close> moves it to
  \<open>0x1000000100000001\<close>, whose high segment is \<open>0x10000001\<close>, and returns
  \<open>0x1d4727623\<close>, whose high segment is \<open>1\<close>. Without obfuscation the same word is
  returned whole, with its tag.
\<close>

theorem obfuscation_drops_section_tag:
  "NewWUID_sectioned_obfuscated ''alpha'' 1 42
     = Returned ((zero_WUID ''alpha'' :: unit WUID)\<lparr>Flags := 1, Obfuscation := True, Monolithic := False,
         ObfuscationMask := 0x2759ea27d4727622, Section := 0x1000000000000000\<rparr>) \<and>
   Reset ((zero_WUID ''alpha'' :: unit WUID)\<lparr>Flags := 1, Obfuscation := True, Monolithic := False,
         ObfuscationMask := 0x2759ea27d4727622, Section := 0x1000000000000000\<rparr>) (push_bit 32 1)
     = (Returned (), (zero_WUID ''alpha'')\<lparr>Flags := 1, Obfuscation := True, Monolithic := False,
         ObfuscationMask := 0x2759ea27d4727622, Section := 0x1000000000000000,
         N := 0x1000000100000000\<rparr>) \<and>
   Next ((zero_WUID ''alpha'' :: unit WUID)\<lparr>Flags := 1, Obfuscation := True, Monolithic := False,
         ObfuscationMask := 0x2759ea27d4727622, Section := 0x1000000000000000,
         N := 0x1000000100000000\<rparr>)
     = ((Returned 0x1d4727623, False), (zero_WUID ''alpha'')\<lparr>Flags := 1, Obfuscation := True,
         Monolithic := False, ObfuscationMask := 0x2759ea27d4727622,
         Section := 0x1000000000000000, N := 0x1000000100000001\<rparr>) \<and>
   signed_drop_bit 32 (0x1d4727623 :: int64) = 1 \<and>
   signed_drop_bit 32 (0x1000000100000001 :: int64) = 0x10000001 \<and>
   Next ((zero_WUID ''alpha'' :: unit WUID)\<lparr>Monolithic := False, Section := 0x1000000000000000,
         N := 0x1000000100000000\<rparr>)
     = ((Returned 0x1000000100000001, False), (zero_WUID ''alpha'')\<lparr>Monolithic := False,
         Section := 0x1000000000000000, N := 0x1000000100000001\<rparr>)"
  by (simp add: sectioned_obfuscated_generator Reset_def Next_def Next_rest_def AddInt64_def
      transform_def zero_WUID_def consts32 L60Mask_def word_sle_eq word_sless_alt Let_def)

text \<open>
  The same narrow mask loses the upper bits of a high segment. For the same generator
  \<open>Verifyh32\<close> accepts \<open>0x200000\<close> (the sectioned bound is \<open>0xFFFFFF\<close>),
  \<open>Reset(0x200000 << 32)\<close> installs it (the word is \<open>0x1020000000000000\<close>), and the
  next \<open>Next\<close> returns \<open>0xd4727623\<close>, whose high segment is \<open>0\<close>, while the high
  segment of the word, under the mask \<open>0xFFFFFF\<close> of the sectioned mode, is
  \<open>0x200000\<close>. Without obfuscation the word is returned whole.
\<close>

theorem obfuscation_drops_high_bits_of_accepted_segment:
  "Verifyh32 ((zero_WUID ''alpha'' :: unit WUID)\<lparr>Flags := 1, Obfuscation := True, Monolithic := False,
         ObfuscationMask := 0x2759ea27d4727622, Section := 0x1000000000000000\<rparr>) 0x200000 = None \<and>
   Reset ((zero_WUID ''alpha'' :: unit WUID)\<lparr>Flags := 1, Obfuscation := True, Monolithic := False,
         ObfuscationMask := 0x2759ea27d4727622, Section := 0x1000000000000000\<rparr>)
       (push_bit 32 0x200000)
     = (Returned (), (zero_WUID ''alpha'')\<lparr>Flags := 1, Obfuscation := True, Monolithic := False,
         ObfuscationMask := 0x2759ea27d4727622, Section := 0x1000000000000000,
         N := 0x1020000000000000\<rparr>) \<and>
   Next ((zero_WUID ''alpha'' :: unit WUID)\<lparr>Flags := 1, Obfuscation := True, Monolithic := False,
         ObfuscationMask := 0x2759ea27d4727622, Section := 0x1000000000000000,
         N := 0x1020000000000000\<rparr>)
     = ((Returned 0xd4727623, False), (zero_WUID ''alpha'')\<lparr>Flags := 1, Obfuscation := True,
         Monolithic := False, ObfuscationMask := 0x2759ea27d4727622,
         Section := 0x1000000000000000, N := 0x1020000000000001\<rparr>) \<and>
   signed_drop_bit 32 (0xd4727623 :: int64) = 0 \<and>
   signed_drop_bit 32 (0x1020000000000001 :: int64) AND 0xFFFFFF = 0x200000 \<and>
   Next ((zero_WUID ''alpha'' :: unit WUID)\<lparr>Monolithic := False, Section := 0x1000000000000000,
         N := 0x1020000000000000\<rparr>)
     = ((Returned 0x1020000000000001, False), (zero_WUID ''alpha'')\<lparr>Monolithic := False,
         Section := 0x1000000000000000, N := 0x1020000000000001\<rparr>)"
  by (simp add: Verifyh32_def Reset_def Next_def Next_rest_def AddInt64_def
      transform_def zero_WUID_def consts32 L60Mask_def word_sle_eq word_sless_alt Let_def)

section \<open>The first value after a reset\<close>

lemma take_bit_small: "uint (h :: int64) < 2 ^ m \<Longrightarrow> take_bit m h = h"
proof -
  assume a: "uint h < 2 ^ m"
  have "uint (take_bit m h) = take_bit m (uint h)" by (rule unsigned_take_bit_eq)
  also have "\<dots> = uint h" using a by (intro take_bit_int_eq_self) simp_all
  finally show ?thesis by (rule word_uint_eqI)
qed

lemma no_high_bit: "uint (h :: int64) < 2 ^ m \<Longrightarrow> m \<le> i \<Longrightarrow> \<not> bit h i"
proof
  assume a: "uint h < 2 ^ m" and i: "m \<le> i" and b: "bit h i"
  have "bit (take_bit m h) i" using b by (simp only: take_bit_small [OF a])
  then show False using i by (simp add: bit_take_bit_iff)
qed

lemma SectionMask_mask: "SectionMask = mask 60"
  by (simp add: SectionMask_def mask_eq_exp_minus_1)

lemma L60Mask_mask: "L60Mask = mask 60"
  by (simp add: L60Mask_def mask_eq_exp_minus_1)

lemma no_low_bit60: "(S :: int64) AND mask 60 = 0 \<Longrightarrow> i < 60 \<Longrightarrow> \<not> bit S i"
proof
  assume a: "S AND mask 60 = 0" and i: "i < 60" and b: "bit S i"
  have "bit (S AND mask 60) i" using b i by (simp add: bit_and_iff bit_mask_iff)
  then show False by (simp add: a)
qed

lemma nonneg_iff_bit63: "0 \<le> sint (x :: int64) \<longleftrightarrow> \<not> bit x 63"
  using bit_last_iff [of x] by auto

lemma reset_word_sectioned:
  fixes h S :: int64
  assumes "S AND mask 60 = 0" and "0 \<le> sint S" and "uint h < 2 ^ 24" and "k + 24 \<le> 60"
  shows "take_bit 24 (drop_bit k ((push_bit k h AND mask 60) OR S)) = h"
    and "take_bit k ((push_bit k h AND mask 60) OR S) = 0"
    and "0 \<le> sint ((push_bit k h AND mask 60) OR S)"
proof -
  have s: "\<not> bit S i" if "i < 60" for i
    using assms(1) that by (rule no_low_bit60)
  have h: "\<not> bit h i" if "24 \<le> i" for i
    using assms(3) that by (rule no_high_bit)
  show "take_bit 24 (drop_bit k ((push_bit k h AND mask 60) OR S)) = h"
    using assms(4) by (intro bit_word_eqI) (auto simp add: bit_simps s dest: h [THEN notE, rotated])
  show "take_bit k ((push_bit k h AND mask 60) OR S) = 0"
    using assms(4) by (intro bit_word_eqI) (auto simp add: bit_simps s)
  have "\<not> bit S 63" using assms(2) by (simp add: nonneg_iff_bit63)
  then show "0 \<le> sint ((push_bit k h AND mask 60) OR S)"
    unfolding nonneg_iff_bit63 by (auto simp add: bit_simps)
qed

lemma reset_word_monolithic:
  fixes h :: int64
  assumes "uint h < 2 ^ m" and "k + m \<le> 63"
  shows "drop_bit k (push_bit k h) = h"
    and "take_bit k (push_bit k h) = 0"
    and "0 \<le> sint (push_bit k h)"
proof -
  have h: "\<not> bit h i" if "m \<le> i" for i
    using assms(1) that by (rule no_high_bit)
  show "drop_bit k (push_bit k h) = h"
    using assms(2) by (intro bit_word_eqI) (auto simp add: bit_simps dest: h [THEN notE, rotated])
  show "take_bit k (push_bit k h) = 0"
    by (intro bit_word_eqI) (auto simp add: bit_simps)
  have "\<not> bit h (63 - k)" using assms(2) by (intro h) simp
  then show "0 \<le> sint (push_bit k h)"
    using assms(2) by (simp add: nonneg_iff_bit63 bit_simps)
qed


lemma no_borrow_int:
  fixes a m M :: int
  assumes "0 \<le> m" "m \<le> a mod M" "0 < M"
  shows "(a - m) div M = a div M"
proof -
  have eq: "a - m = M * (a div M) + (a mod M - m)" by simp
  have nonneg: "0 \<le> a mod M - m" using assms(2) by simp
  have less: "a mod M - m < M"
    using assms(1,3) pos_mod_bound [of M a] by linarith
  show ?thesis using eq nonneg less by (rule int_div_pos_eq)
qed

lemma uint_add_aligned:
  fixes x s :: int64
  assumes "take_bit k x = 0" and "0 \<le> sint x" and "uint s \<le> 1024" and "32 \<le> k" and "k \<le> 63"
  shows "uint (x + s) = uint x + uint s" and "uint (x + s) mod 2 ^ k = uint s"
    and "uint (x + s) div 2 ^ k = uint x div 2 ^ k" and "0 \<le> sint (x + s)"
    and "sint (x + s) = uint (x + s)"
proof -
  have "uint (take_bit k x) = take_bit k (uint x)" by (rule unsigned_take_bit_eq)
  then have "take_bit k (uint x) = 0" by (simp only: assms(1) uint_0_eq)
  then have z: "uint x mod 2 ^ k = 0" by (simp only: take_bit_eq_mod)
  have "(2 :: int) ^ 32 \<le> 2 ^ k" using assms(4) by (intro power_increasing) simp_all
  then have big: "1024 < (2 :: int) ^ k" by simp
  have nc: "uint x mod 2 ^ k + uint s < 2 ^ k"
    using z assms(3) big by simp
  show d: "uint (x + s) div 2 ^ k = uint x div 2 ^ k"
    using nc assms(5) by (intro uint_div_add) simp_all
  have "uint (x + s) mod 2 ^ k = (uint x + uint s) mod 2 ^ k"
  proof -
    have "(2 :: int) ^ k dvd 2 ^ 64" using assms(5) by (intro le_imp_power_dvd) simp
    then show ?thesis by (simp add: uint_word_ariths mod_mod_cancel)
  qed
  also have "\<dots> = uint x mod 2 ^ k + uint s"
    using nc by (intro no_carry_int) simp_all
  finally show m: "uint (x + s) mod 2 ^ k = uint s" using z by simp
  have "uint (x + s) = 2 ^ k * (uint (x + s) div 2 ^ k) + uint (x + s) mod 2 ^ k" by simp
  also have "\<dots> = 2 ^ k * (uint x div 2 ^ k) + uint s" by (simp only: d m)
  also have "\<dots> = uint x + uint s"
    using z mult_div_mod_eq [of "2 ^ k" "uint x"] by simp
  finally show e: "uint (x + s) = uint x + uint s" .
  have ux: "uint x = sint x" using assms(2) by (rule uint_of_nonneg)
  have "sint x < 2 ^ 63" using sint_lt [of x] by simp
  then have lt: "uint x < 2 ^ 63" using ux by simp
  have "(2 :: int) ^ k dvd 2 ^ 63" using assms(5) by (intro le_imp_power_dvd) simp
  then obtain c :: int where c: "2 ^ 63 = 2 ^ k * c" by (auto simp add: dvd_def)
  have "uint x = 2 ^ k * (uint x div 2 ^ k)"
    using z mult_div_mod_eq [of "2 ^ k" "uint x"] by simp
  then have "2 ^ k * (uint x div 2 ^ k) < 2 ^ k * c" using lt c by simp
  then have "uint x div 2 ^ k < c" by (simp add: mult_less_cancel_left_pos)
  then have "uint x div 2 ^ k + 1 \<le> c" by simp
  then have "2 ^ k * (uint x div 2 ^ k + 1) \<le> 2 ^ k * c"
    by (intro mult_left_mono) simp_all
  then have "uint x + 2 ^ k \<le> 2 ^ 63"
    using \<open>uint x = 2 ^ k * (uint x div 2 ^ k)\<close> c by (simp add: algebra_simps)
  then have "uint (x + s) < 2 ^ 63" using e assms(3) big by simp
  then show "sint (x + s) = uint (x + s)" by (rule sint_small)
  then show "0 \<le> sint (x + s)" by simp
qed


lemma sdiv_mult_range:
  fixes a b :: int
  assumes "1 \<le> b"
  shows "(0 \<le> a \<longrightarrow> (a sdiv b) * b = a - a mod b) \<and>
         (a < 0 \<longrightarrow> a \<le> (a sdiv b) * b \<and> (a sdiv b) * b \<le> 0)"
proof (intro conjI impI)
  assume a: "0 \<le> a"
  then have e: "a sdiv b = a div b"
    using assms by (cases "a = 0") (simp_all add: signed_divide_int_def sgn_if)
  show "(a sdiv b) * b = a - a mod b"
    unfolding e by (simp add: minus_mod_eq_div_mult)
next
  assume a: "a < 0"
  then have e: "a sdiv b = - ((- a) div b)"
    using assms by (simp add: signed_divide_int_def sgn_if)
  have 2: "0 \<le> (- a) mod b" using assms by simp
  have 3: "0 \<le> (- a) div b * b"
    using a assms by (intro mult_nonneg_nonneg) (simp_all add: pos_imp_zdiv_nonneg_iff)
  have "(- a) div b * b \<le> - a"
    using 2 by (simp add: minus_mod_eq_div_mult [symmetric])
  then show "a \<le> (a sdiv b) * b" unfolding e by simp
  show "(a sdiv b) * b \<le> 0" unfolding e using 3 by simp
qed

lemma sint_in_range:
  fixes k :: int
  assumes "- (2 ^ 63) \<le> k" "k < 2 ^ 63"
  shows "sint (word_of_int k :: int64) = k"
proof -
  have "signed_take_bit 63 k = k"
    using assms by (intro signed_take_bit_int_eq_self) simp_all
  then show ?thesis by (simp add: sint_sbintrunc')
qed

lemma sint_quo_mult:
  assumes "1 \<le> sint F"
  shows "sint (quo v F * F) = (sint v sdiv sint F) * sint F"
proof -
  let ?k = "sint v sdiv sint F"
  have lo: "- (2 ^ 63) \<le> sint v" using sint_ge [of v] by simp
  have hi: "sint v < 2 ^ 63" using sint_lt [of v] by simp
  have m: "0 \<le> sint v mod sint F" using assms by simp
  have r: "- (2 ^ 63) \<le> ?k * sint F \<and> ?k * sint F < 2 ^ 63"
  proof (cases "0 \<le> sint v")
    case True
    then have "?k * sint F = sint v - sint v mod sint F"
      using sdiv_mult_range [OF assms, of "sint v"] by simp
    moreover have "sint v mod sint F \<le> sint v"
      using True assms by (intro zmod_le_nonneg_dividend)
    ultimately show ?thesis using lo hi m by linarith
  next
    case False
    then show ?thesis
      using sdiv_mult_range [OF assms, of "sint v"] lo hi by linarith
  qed
  have "quo v F * F = word_of_int ?k * word_of_int (sint F)"
    by (simp add: quo_def)
  also have "\<dots> = word_of_int (?k * sint F)"
    by (simp only: of_int_mult)
  finally have "sint (quo v F * F) = sint (word_of_int (?k * sint F) :: int64)"
    by simp
  also have "\<dots> = ?k * sint F"
    using r by (intro sint_in_range) simp_all
  finally show ?thesis .
qed

lemma quo_mult_dvd:
  assumes "1 \<le> sint F"
  shows "sint F dvd sint (quo v F * F)"
  by (simp only: sint_quo_mult [OF assms] dvd_triv_right)

lemma quo_keeps_high:
  fixes x F :: int64
  assumes "0 \<le> sint x" and "1 \<le> sint F" and "sint F \<le> uint x mod 2 ^ k"
  shows "uint (quo x F * F) div 2 ^ k = uint x div 2 ^ k" and "0 \<le> sint (quo x F * F)"
proof -
  have ux: "uint x = sint x" using assms(1) by (rule uint_of_nonneg)
  have m: "0 \<le> sint x mod sint F" "sint x mod sint F < sint F"
    using assms(2) by simp_all
  have le: "sint x mod sint F \<le> sint x"
    using assms(1,2) by (intro zmod_le_nonneg_dividend)
  have r: "sint (quo x F * F) = sint x - sint x mod sint F"
    using sint_quo_mult [OF assms(2), of x] sdiv_mult_range [OF assms(2), of "sint x"] assms(1)
    by simp
  then show nn: "0 \<le> sint (quo x F * F)" using le by simp
  then have "uint (quo x F * F) = uint x - uint x mod sint F"
    using r ux by (simp add: uint_of_nonneg)
  moreover have "(uint x - uint x mod sint F) div 2 ^ k = uint x div 2 ^ k"
    using m assms(3) ux by (intro no_borrow_int) simp_all
  ultimately show "uint (quo x F * F) div 2 ^ k = uint x div 2 ^ k" by simp
qed

lemma signed_drop_nonneg: "0 \<le> sint (r :: int64) \<Longrightarrow> signed_drop_bit k r = drop_bit k r"
  unfolding nonneg_iff_bit63
  by (intro bit_word_eqI) (auto simp add: bit_simps dest: bit_imp_le_length)

lemma drop_bit_cong_div:
  fixes a b :: int64
  assumes "uint a div 2 ^ k = uint b div 2 ^ k"
  shows "drop_bit k a = drop_bit k b"
proof -
  have d: "uint (drop_bit k c) = uint c div 2 ^ k" for c :: int64
  proof -
    have "uint (drop_bit k c) = drop_bit k (take_bit 64 (uint c))"
      by (subst unsigned_drop_bit_eq) simp
    then show ?thesis by (simp only: take_bit_uint64 drop_bit_eq_div)
  qed
  show ?thesis using assms by (intro word_uint_eqI) (simp only: d)
qed

lemma and_FFFFFF: "(x :: int64) AND 0xFFFFFF = take_bit 24 x"
proof -
  have "(0xFFFFFF :: int64) = mask 24" by (simp add: mask_eq_exp_minus_1)
  then show ?thesis by (simp only: take_bit_eq_mask)
qed


lemma packed_under_mask60:
  fixes h :: int64
  assumes "uint h < 2 ^ 24" and "k \<le> 36"
  shows "push_bit k h AND mask 60 = push_bit k h"
proof (rule bit_word_eqI)
  fix i assume "i < LENGTH(64)"
  have "i < 60" if b: "bit h (i - k)"
  proof (rule ccontr)
    assume "\<not> i < 60"
    then have "24 \<le> i - k" using assms(2) by simp
    then have "\<not> bit h (i - k)" using assms(1) by (intro no_high_bit [where m = 24])
    then show False using b by simp
  qed
  then show "bit (push_bit k h AND mask 60) i \<longleftrightarrow> bit (push_bit k h) i"
    by (auto simp add: bit_simps)
qed

lemma high_of_packed:
  fixes h S :: int64
  assumes "uint h < 2 ^ m" and "k + m \<le> 64"
  shows "drop_bit k (push_bit k h OR S) = h OR drop_bit k S"
proof (rule bit_word_eqI)
  fix i assume i: "i < LENGTH(64)"
  have "k + i < 64" if b: "bit h i"
  proof (rule ccontr)
    assume "\<not> k + i < 64"
    then have "m \<le> i" using assms(2) by simp
    then have "\<not> bit h i" using assms(1) by (intro no_high_bit [where m = m])
    then show False using b by simp
  qed
  then show "bit (drop_bit k (push_bit k h OR S)) i \<longleftrightarrow> bit (h OR drop_bit k S) i"
    using i by (auto simp add: bit_simps)
qed

lemma Next36_after_Reset36_word:
  assumes step: "Step36 w \<in> set allowed_steps"
    and floor: "Floor36 w = 0 \<or> 1 \<le> sint (Floor36 w) \<and> sint (Floor36 w) < sint (Step36 w)"
    and sect: "\<not> Monolithic36 w \<longrightarrow> Section36 w AND SectionMask = 0 \<and> 0 \<le> sint (Section36 w)"
    and pos: "0 < sint h"
    and bound: "sint h \<le> (if Monolithic36 w then 0x7FFFFFF else 0xFFFFFF)"
  shows "\<exists>w1 r w2. Reset36 w (push_bit 36 h) = (Returned (), w1) \<and>
      N36 w1 = (if Monolithic36 w then push_bit 36 h
                else (push_bit 36 h AND SectionMask) OR Section36 w) \<and>
      Next36 w1 = ((Returned r, False), w2) \<and>
      signed_drop_bit 36 r = drop_bit 36 (N36 w1)"
proof -
  let ?n = "push_bit 36 h"
  let ?N0 = "if Monolithic36 w then ?n else (?n AND SectionMask) OR Section36 w"
  let ?w1 = "w\<lparr>N36 := ?N0\<rparr>"
  let ?x = "?N0 + Step36 w"
  let ?r = "if Floor36 w = 0 then ?x else quo ?x (Floor36 w) * Floor36 w"
  have uh: "uint h = sint h" using pos by (intro uint_of_nonneg) simp
  have h27: "uint h < 2 ^ 27" using uh bound by (simp split: if_splits)
  have s: "1 \<le> uint (Step36 w)" "uint (Step36 w) \<le> 1024"
    using allowed_step_bounds [OF step] by simp_all
  have ss: "sint (Step36 w) = uint (Step36 w)"
    using s by (intro sint_small) simp
  have "0 \<le> sint ?n"
    using h27 by (rule reset_word_monolithic) simp
  then have reset: "Reset36 w ?n = (Returned (), ?w1)"
    by (simp add: Reset36_def neg_test Let_def)
  have low: "take_bit 36 ?N0 = 0" and nn: "0 \<le> sint ?N0"
    and high: "(if Monolithic36 w then drop_bit 36 ?N0 else take_bit 24 (drop_bit 36 ?N0)) = h"
  proof -
    show "take_bit 36 ?N0 = 0"
    proof (cases "Monolithic36 w")
      case True
      then show ?thesis using reset_word_monolithic(2) [OF h27, of 36] by simp
    next
      case False
      then have "uint h < 2 ^ 24" using uh bound by simp
      then show ?thesis
        using False sect reset_word_sectioned(2) [of "Section36 w" h 36]
        by (simp add: SectionMask_mask)
    qed
    show "0 \<le> sint ?N0"
    proof (cases "Monolithic36 w")
      case True
      then show ?thesis using reset_word_monolithic(3) [OF h27, of 36] by simp
    next
      case False
      then have "uint h < 2 ^ 24" using uh bound by simp
      then show ?thesis
        using False sect reset_word_sectioned(3) [of "Section36 w" h 36]
        by (simp add: SectionMask_mask)
    qed
    show "(if Monolithic36 w then drop_bit 36 ?N0 else take_bit 24 (drop_bit 36 ?N0)) = h"
    proof (cases "Monolithic36 w")
      case True
      then show ?thesis using reset_word_monolithic(1) [OF h27, of 36] by simp
    next
      case False
      then have "uint h < 2 ^ 24" using uh bound by simp
      then show ?thesis
        using False sect reset_word_sectioned(1) [of "Section36 w" h 36]
        by (simp add: SectionMask_mask)
    qed
  qed
  note add = uint_add_aligned [OF low nn s(2)]
  have xm: "uint ?x mod 2 ^ 36 = uint (Step36 w)" by (rule add(2)) simp_all
  have xd: "uint ?x div 2 ^ 36 = uint ?N0 div 2 ^ 36" by (rule add(3)) simp_all
  have xn: "0 \<le> sint ?x" by (rule add(4)) simp_all
  have below: "uint (N36 ?w1 + Step36 ?w1) mod 2 ^ 36 < 65970697216"
    using xm s by simp
  have nocrit: "\<not> 54975581184 \<le> uint (N36 ?w1 + Step36 ?w1) mod 2 ^ 36"
    using xm s by simp
  have nx: "Next36 ?w1 = ((Returned ?r, False), ?w1\<lparr>N36 := ?x\<rparr>)"
    using Next_below36 [OF below] nocrit by (simp split: if_splits)
  have rd: "uint ?r div 2 ^ 36 = uint ?N0 div 2 ^ 36" and rn: "0 \<le> sint ?r"
  proof -
    show "uint ?r div 2 ^ 36 = uint ?N0 div 2 ^ 36"
    proof (cases "Floor36 w = 0")
      case True
      then show ?thesis using xd by simp
    next
      case False
      then have f: "1 \<le> sint (Floor36 w)" "sint (Floor36 w) \<le> uint ?x mod 2 ^ 36"
        using floor ss xm by simp_all
      show ?thesis
        using False quo_keeps_high(1) [OF xn f] xd by simp
    qed
    show "0 \<le> sint ?r"
    proof (cases "Floor36 w = 0")
      case True
      then show ?thesis using xn by simp
    next
      case False
      then have f: "1 \<le> sint (Floor36 w)" "sint (Floor36 w) \<le> uint ?x mod 2 ^ 36"
        using floor ss xm by simp_all
      show ?thesis
        using False quo_keeps_high(2) [OF xn f] by simp
    qed
  qed
  have "signed_drop_bit 36 ?r = drop_bit 36 ?r" using rn by (rule signed_drop_nonneg)
  also have "\<dots> = drop_bit 36 ?N0" using rd by (rule drop_bit_cong_div)
  finally have sd: "signed_drop_bit 36 ?r = drop_bit 36 ?N0" .
  have n1: "N36 ?w1 = ?N0" by simp
  show ?thesis
    using reset nx sd n1 by (intro exI [of _ ?w1] exI [of _ ?r] exI [of _ "?w1\<lparr>N36 := ?x\<rparr>"]) simp
qed

lemma aligned_mod:
  fixes x :: int64
  assumes "take_bit k x = 0"
  shows "uint x mod 2 ^ k = 0"
proof -
  have "uint (take_bit k x) = take_bit k (uint x)" by (rule unsigned_take_bit_eq)
  then have "take_bit k (uint x) = 0" by (simp only: assms uint_0_eq)
  then show ?thesis by (simp only: take_bit_eq_mod)
qed

lemma and_small_of_aligned:
  fixes x m :: int64
  assumes "take_bit k x = 0" and "uint m < 2 ^ k"
  shows "x AND m = 0"
proof (rule bit_word_eqI)
  fix i
  assume "i < LENGTH(64)"
  have "\<not> (bit x i \<and> bit m i)"
  proof
    assume b: "bit x i \<and> bit m i"
    then have "i < k" using no_high_bit [OF assms(2), of i] by (cases "i < k") simp_all
    then have "bit (take_bit k x) i" using b by (simp add: bit_take_bit_iff)
    then show False by (simp add: assms(1))
  qed
  then show "bit (x AND m) i = bit (0 :: int64) i"
    by (simp add: bit_and_iff)
qed

lemma and_take_bit_small:
  fixes x m :: int64
  assumes "uint m < 2 ^ k"
  shows "x AND m = take_bit k x AND m"
proof (rule bit_word_eqI)
  fix i
  assume "i < LENGTH(64)"
  show "bit (x AND m) i = bit (take_bit k x AND m) i"
  proof (cases "i < k")
    case True
    then show ?thesis by (simp add: bit_and_iff bit_take_bit_iff)
  next
    case False
    then have "\<not> bit m i" using no_high_bit [OF assms, of i] by simp
    then show ?thesis by (simp add: bit_and_iff)
  qed
qed

lemma allowed_step_pred:
  assumes "s \<in> set allowed_steps"
  shows "uint (s - 1) = uint s - 1" and "s AND (s - 1) = 0" and "sint s = uint s"
  using assms by (auto simp add: allowed_steps_def)

lemma obfuscated_high:
  fixes v x :: int64
  shows "drop_bit 32 ((v AND H32Mask) OR (x AND L32Mask)) = take_bit 21 (drop_bit 32 v)"
    and "((v AND H32Mask) OR (x AND L32Mask)) AND L32Mask = x AND L32Mask"
    and "0 \<le> sint ((v AND H32Mask) OR (x AND L32Mask))"
proof -
  show "drop_bit 32 ((v AND H32Mask) OR (x AND L32Mask)) = take_bit 21 (drop_bit 32 v)"
    unfolding H32Mask_push L32Mask_mask
    by (rule bit_word_eqI) (auto simp add: bit_simps)
  show "((v AND H32Mask) OR (x AND L32Mask)) AND L32Mask = x AND L32Mask"
    unfolding H32Mask_push L32Mask_mask
    by (rule bit_word_eqI) (auto simp add: bit_simps)
  show "0 \<le> sint ((v AND H32Mask) OR (x AND L32Mask))"
    unfolding H32Mask_push L32Mask_mask nonneg_iff_bit63
    by (auto simp add: bit_simps)
qed

lemma Reset_installs:
  assumes step: "Step w \<in> set allowed_steps"
    and sect: "\<not> Monolithic w \<longrightarrow> Section w AND L60Mask = 0 \<and> 0 \<le> sint (Section w)"
    and pos: "0 < sint h"
    and bound: "sint h \<le> (if Monolithic w then 0x1FFFFF else 0xFFFFFF)"
  defines "N0 \<equiv> (if Monolithic w then push_bit 32 h else (push_bit 32 h AND L60Mask) OR Section w)"
  shows "Reset w (push_bit 32 h) = (Returned (), w\<lparr>N := N0\<rparr>)"
    and "take_bit 32 N0 = 0" and "0 \<le> sint N0"
    and "(if Monolithic w then drop_bit 32 N0 else take_bit 24 (drop_bit 32 N0)) = h"
proof -
  let ?n = "push_bit 32 h"
  have uh: "uint h = sint h" using pos by (intro uint_of_nonneg) simp
  have h24: "uint h < 2 ^ 24" using uh bound by (simp split: if_splits)
  show low: "take_bit 32 N0 = 0"
  proof (cases "Monolithic w")
    case True
    then show ?thesis using reset_word_monolithic(2) [OF h24, of 32] by (simp add: N0_def)
  next
    case False
    then show ?thesis
      using h24 sect reset_word_sectioned(2) [of "Section w" h 32]
      by (simp add: L60Mask_mask N0_def)
  qed
  show nn: "0 \<le> sint N0"
  proof (cases "Monolithic w")
    case True
    then show ?thesis using reset_word_monolithic(3) [OF h24, of 32] by (simp add: N0_def)
  next
    case False
    then show ?thesis
      using h24 sect reset_word_sectioned(3) [of "Section w" h 32]
      by (simp add: L60Mask_mask N0_def)
  qed
  show "(if Monolithic w then drop_bit 32 N0 else take_bit 24 (drop_bit 32 N0)) = h"
  proof (cases "Monolithic w")
    case True
    then show ?thesis using reset_word_monolithic(1) [OF h24, of 32] by (simp add: N0_def)
  next
    case False
    then show ?thesis
      using h24 sect reset_word_sectioned(1) [of "Section w" h 32]
      by (simp add: L60Mask_mask N0_def)
  qed
  have n0: "0 \<le> sint ?n"
    using h24 by (rule reset_word_monolithic) simp
  have "take_bit 32 ?n = 0"
    using h24 by (rule reset_word_monolithic) simp
  then have "uint ?n mod 2 ^ 32 = 0"
    by (rule aligned_mod)
  then have np: "\<not> PanicValue \<le>s ?n AND L32Mask"
    by (simp add: panic_test32)
  have "uint (Step w - 1) < 2 ^ 32"
    using allowed_step_pred(1) [OF step] allowed_step_bounds [OF step] by simp
  then have al: "N0 AND (Step w - 1) = 0"
    using low by (intro and_small_of_aligned [where k = 32])
  show "Reset w ?n = (Returned (), w\<lparr>N := N0\<rparr>)"
    using n0 np al by (simp add: Reset_def neg_test Let_def N0_def)
qed


lemma Next_after_Reset_word:
  assumes step: "Step w \<in> set allowed_steps"
    and flags: "Flags w = 0 \<or> Flags w = 1 \<or> Flags w = 2 \<or> Flags w = 3"
    and floor: "Flags w = 2 \<or> Flags w = 3 \<longrightarrow> 2 \<le> sint (Floor w) \<and> sint (Floor w) < sint (Step w)"
    and ones: "Flags w = 3 \<longrightarrow> ObfuscationMask w AND (Step w - 1) = Step w - 1"
    and sect: "\<not> Monolithic w \<longrightarrow> Section w AND L60Mask = 0 \<and> 0 \<le> sint (Section w)"
    and pos: "0 < sint h"
    and bound: "sint h \<le> (if Monolithic w then 0x1FFFFF else 0xFFFFFF)"
    and fits: "Flags w = 1 \<or> Flags w = 3 \<longrightarrow> sint h \<le> 0x1FFFFF"
  shows "\<exists>w1 r w2. Reset w (push_bit 32 h) = (Returned (), w1) \<and>
      N w1 = (if Monolithic w then push_bit 32 h else (push_bit 32 h AND L60Mask) OR Section w) \<and>
      Next w1 = ((Returned r, False), w2) \<and>
      (if Monolithic w then signed_drop_bit 32 r else signed_drop_bit 32 r AND 0xFFFFFF) = h \<and>
      (Flags w = 0 \<or> Flags w = 2 \<longrightarrow> signed_drop_bit 32 r = drop_bit 32 (N w1))"
proof -
  define N0 where "N0 = (if Monolithic w then push_bit 32 h else (push_bit 32 h AND L60Mask) OR Section w)"
  let ?w1 = "w\<lparr>N := N0\<rparr>"
  let ?v = "N0 + Step w"
  let ?q = "(?v AND H32Mask) OR ((?v XOR ObfuscationMask w) AND L32Mask)"
  note rs = Reset_installs [OF step sect pos bound, folded N0_def]
  have uh: "uint h = sint h" using pos by (intro uint_of_nonneg) simp
  have s: "1 \<le> uint (Step w)" "uint (Step w) \<le> 1024"
    using allowed_step_bounds [OF step] by simp_all
  note sp = allowed_step_pred [OF step]
  note add = uint_add_aligned [OF rs(2) rs(3) s(2)]
  have vm: "uint ?v mod 2 ^ 32 = uint (Step w)" by (rule add(2)) simp_all
  have vd: "uint ?v div 2 ^ 32 = uint N0 div 2 ^ 32" by (rule add(3)) simp_all
  have vn: "0 \<le> sint ?v" by (rule add(4)) simp_all
  have dv: "drop_bit 32 ?v = drop_bit 32 N0" using vd by (rule drop_bit_cong_div)
  have below: "uint (N ?w1 + Step ?w1) mod 2 ^ 32 < 4123167744"
    using vm s by simp
  have nocrit: "\<not> 3435973632 \<le> uint (N ?w1 + Step ?w1) mod 2 ^ 32"
    using vm s by simp
  have nx: "Next ?w1 = ((transform ?w1 ?v, False), ?w1\<lparr>N := ?v\<rparr>)"
    using Next_below32 [OF below] nocrit by simp
  have tr: "transform ?w1 ?v = transform w ?v"
    by (simp add: transform_def)
  have goal: "\<exists>r. transform w ?v = Returned r \<and>
      (if Monolithic w then signed_drop_bit 32 r else signed_drop_bit 32 r AND 0xFFFFFF) = h \<and>
      (Flags w = 0 \<or> Flags w = 2 \<longrightarrow> signed_drop_bit 32 r = drop_bit 32 N0)"
  proof -
    have whole: "signed_drop_bit 32 r = drop_bit 32 N0"
      if "0 \<le> sint r" and "drop_bit 32 r = drop_bit 32 N0" for r
      using that by (simp only: signed_drop_nonneg)
    have fin: "(if Monolithic w then signed_drop_bit 32 r else signed_drop_bit 32 r AND 0xFFFFFF) = h"
      if "0 \<le> sint r" and "drop_bit 32 r = drop_bit 32 N0" for r
    proof -
      have "signed_drop_bit 32 r = drop_bit 32 N0"
        using that by (simp only: signed_drop_nonneg)
      then show ?thesis using rs(4) by (simp only: and_FFFFFF)
    qed
    have fin21: "(if Monolithic w then signed_drop_bit 32 r else signed_drop_bit 32 r AND 0xFFFFFF) = h"
      if "0 \<le> sint r" and "drop_bit 32 r = take_bit 21 (drop_bit 32 N0)" and "sint h \<le> 0x1FFFFF" for r
    proof -
      have "uint h < 2 ^ 21" using uh that(3) by simp
      then have t: "take_bit 21 h = h" by (rule take_bit_small)
      have "take_bit 21 (drop_bit 32 N0) = h"
      proof (cases "Monolithic w")
        case True
        then show ?thesis using rs(4) t by simp
      next
        case False
        then have "take_bit 24 (drop_bit 32 N0) = h" using rs(4) by simp
        then have "take_bit 21 (take_bit 24 (drop_bit 32 N0)) = h" using t by simp
        then show ?thesis by simp
      qed
      then have sd: "signed_drop_bit 32 r = h"
        using that by (simp only: signed_drop_nonneg)
      have "uint h < 2 ^ 24" using uh that(3) by simp
      then have "take_bit 24 h = h" by (rule take_bit_small)
      then show ?thesis by (simp only: sd and_FFFFFF if_cancel)
    qed
    consider "Flags w = 0" | "Flags w = 1" | "Flags w = 2" | "Flags w = 3"
      using flags by blast
    then show ?thesis
    proof cases
      case 1
      then have "transform w ?v = Returned ?v" by (simp add: transform_def)
      then show ?thesis using fin [OF vn dv] whole [OF vn dv] by simp
    next
      case 2
      then have t: "transform w ?v = Returned ?q" by (simp add: transform_def Let_def)
      have "drop_bit 32 ?q = take_bit 21 (drop_bit 32 N0)"
        by (simp only: obfuscated_high(1) dv)
      then show ?thesis
        using t fin21 [OF obfuscated_high(3)] fits 2 by simp
    next
      case 3
      then have f: "2 \<le> sint (Floor w)" "sint (Floor w) < sint (Step w)"
        using floor by simp_all
      then have f0: "Floor w \<noteq> 0" by auto
      have t: "transform w ?v = Returned (quo ?v (Floor w) * Floor w)"
        using 3 f0 by (simp add: transform_def)
      have f1: "1 \<le> sint (Floor w)" "sint (Floor w) \<le> uint ?v mod 2 ^ 32"
        using f sp(3) vm by simp_all
      have dq: "drop_bit 32 (quo ?v (Floor w) * Floor w) = drop_bit 32 N0"
        using quo_keeps_high(1) [OF vn f1] vd by (intro drop_bit_cong_div) simp
      show ?thesis
        using t fin [OF quo_keeps_high(2) [OF vn f1] dq] whole [OF quo_keeps_high(2) [OF vn f1] dq]
        by simp
    next
      case 4
      then have f: "2 \<le> sint (Floor w)" "sint (Floor w) < sint (Step w)"
        using floor by simp_all
      then have f0: "Floor w \<noteq> 0" by auto
      have t: "transform w ?v = Returned (quo ?q (Floor w) * Floor w)"
        using 4 f0 by (simp add: transform_def Let_def)
      have qn: "0 \<le> sint ?q" by (rule obfuscated_high(3))
      have m1: "uint (Step w - 1) < 2 ^ 32" using sp(1) s by simp
      have tv: "take_bit 32 ?v = Step w"
      proof (rule word_uint_eqI)
        have "uint (take_bit 32 ?v) = take_bit 32 (uint ?v)"
          by (rule unsigned_take_bit_eq)
        also have "\<dots> = uint ?v mod 2 ^ 32"
          by (rule take_bit_eq_mod)
        finally show "uint (take_bit 32 ?v) = uint (Step w)" using vm by simp
      qed
      have "?v AND (Step w - 1) = take_bit 32 ?v AND (Step w - 1)"
        using m1 by (rule and_take_bit_small)
      then have va: "?v AND (Step w - 1) = 0" using tv sp(2) by simp
      have "(?q AND L32Mask) AND (Step w - 1)
          = ((?v XOR ObfuscationMask w) AND L32Mask) AND (Step w - 1)"
        by (simp only: obfuscated_high(2))
      also have "\<dots> = take_bit 32 (?v XOR ObfuscationMask w) AND (Step w - 1)"
        by (simp only: L32Mask_mask take_bit_eq_mask)
      also have "\<dots> = (?v XOR ObfuscationMask w) AND (Step w - 1)"
        using m1 by (rule and_take_bit_small [symmetric])
      also have "\<dots> = (?v AND (Step w - 1)) XOR (ObfuscationMask w AND (Step w - 1))"
        by (simp add: bit.conj_xor_distrib2)
      also have "\<dots> = Step w - 1" using va ones 4 by simp
      finally have "(?q AND L32Mask) AND (Step w - 1) = Step w - 1" .
      then have "Step w - 1 \<le> ?q AND L32Mask"
        using word_and_le2 [of "?q AND L32Mask" "Step w - 1"] by simp
      then have "uint (Step w - 1) \<le> uint (?q AND L32Mask)" by (simp add: word_le_def)
      then have "uint (Step w) - 1 \<le> uint ?q mod 2 ^ 32"
        using sp(1) by (simp only: uint_low32)
      then have f1: "1 \<le> sint (Floor w)" "sint (Floor w) \<le> uint ?q mod 2 ^ 32"
        using f sp(3) by simp_all
      have "drop_bit 32 (quo ?q (Floor w) * Floor w) = drop_bit 32 ?q"
        using quo_keeps_high(1) [OF qn f1] by (intro drop_bit_cong_div) simp
      also have "\<dots> = take_bit 21 (drop_bit 32 N0)"
        by (simp only: obfuscated_high(1) dv)
      finally show ?thesis
        using t fin21 [OF quo_keeps_high(2) [OF qn f1]] fits 4 by simp
    qed
  qed
  then obtain r where r: "transform w ?v = Returned r"
    "(if Monolithic w then signed_drop_bit 32 r else signed_drop_bit 32 r AND 0xFFFFFF) = h"
    "Flags w = 0 \<or> Flags w = 2 \<longrightarrow> signed_drop_bit 32 r = drop_bit 32 N0"
    by blast
  have n1: "N ?w1 = N0" by simp
  have nx': "Next ?w1 = ((Returned r, False), ?w1\<lparr>N := ?v\<rparr>)"
    using nx tr r(1) by simp
  show ?thesis
    unfolding N0_def [symmetric]
    using rs(1) n1 nx' r(2,3)
    by (intro exI [of _ ?w1] exI [of _ r] exI [of _ "?w1\<lparr>N := ?v\<rparr>"]) simp
qed

lemma Next_multiple_of_floor:
  assumes "Flags w = 2 \<or> Flags w = 3" and "2 \<le> sint (Floor w)"
    and "fst (fst (Next w)) = Returned r"
  shows "sint (Floor w) dvd sint r"
proof -
  have f: "1 \<le> sint (Floor w)" using assms(2) by simp
  then have f0: "Floor w \<noteq> 0" by auto
  have "fst (fst (Next w)) \<noteq> Panicked LowBitsAboutToRunOut" using assms(3) by simp
  then have "uint (N w + Step w) mod 2 ^ 32 < 4123167744"
    by (simp add: Next_threshold_iff32)
  then have "fst (fst (Next w)) = transform w (N w + Step w)"
    by (simp add: Next_below32)
  then have "transform w (N w + Step w) = Returned r" using assms(3) by simp
  then obtain q where "r = quo q (Floor w) * Floor w"
    using assms(1) f0 by (auto simp add: transform_def Let_def)
  then show ?thesis using quo_mult_dvd [OF f] by simp
qed

lemma Next36_multiple_of_floor:
  assumes "2 \<le> sint (Floor36 w)" and "fst (fst (Next36 w)) = Returned r"
  shows "sint (Floor36 w) dvd sint r"
proof -
  have f: "1 \<le> sint (Floor36 w)" using assms(1) by simp
  then have f0: "Floor36 w \<noteq> 0" by auto
  have "fst (fst (Next36 w)) \<noteq> Panicked LowBitsAboutToRunOut" using assms(2) by simp
  then have "uint (N36 w + Step36 w) mod 2 ^ 36 < 65970697216"
    by (simp add: Next_threshold_iff36)
  then have "fst (fst (Next36 w)) = Returned (quo (N36 w + Step36 w) (Floor36 w) * Floor36 w)"
    using f0 by (simp add: Next_below36)
  then have "r = quo (N36 w + Step36 w) (Floor36 w) * Floor36 w" using assms(2) by simp
  then show ?thesis using quo_mult_dvd [OF f] by simp
qed

section \<open>What the constructors establish\<close>

text \<open>
  Every generator that \<open>NewWUID\<close> returns, given options made by the option
  constructors, has its fields as \<open>configured\<close> (\<open>configured36\<close>) says.
\<close>

lemma section_tag_word:
  fixes sec :: int8
  assumes "\<not> (sec <s 0 \<or> 7 <s sec)"
  shows "(push_bit 60 (scast sec) :: int64) AND mask 60 = 0"
    and "0 \<le> sint (push_bit 60 (scast sec) :: int64)"
proof -
  show "(push_bit 60 (scast sec) :: int64) AND mask 60 = 0"
    by (rule bit_word_eqI) (auto simp add: bit_simps)
  have r: "0 \<le> sint sec" "sint sec \<le> 7"
    using assms by (simp_all add: word_sless_alt not_less)
  have "uint sec = take_bit 8 (sint sec)" by (simp add: uint_sint)
  also have "\<dots> = sint sec" using r by (intro take_bit_int_eq_self) simp_all
  finally have "uint sec < 2 ^ 3" using r by simp
  then have "take_bit 3 (uint sec) = uint sec"
    by (intro take_bit_int_eq_self) simp_all
  then have "take_bit 3 sec = sec"
    by (intro word_uint_eqI) (simp add: unsigned_take_bit_eq)
  then have "bit sec 3 = bit (take_bit 3 sec) 3" by simp
  then have "\<not> bit sec 3" by (simp add: bit_take_bit_iff)
  then show "0 \<le> sint (push_bit 60 (scast sec) :: int64)"
    unfolding nonneg_iff_bit63 by (simp add: bit_simps bit_word_scast_iff)
qed

lemma flags_or:
  fixes f :: int8
  assumes "f = 0 \<or> f = 1 \<or> f = 2 \<or> f = 3"
  shows "f OR 1 = (if f = 0 \<or> f = 1 then 1 else 3)" and "f OR 2 = (if f = 0 \<or> f = 2 then 2 else 3)"
  using assms by auto



lemma opt_case_verifier:
  assumes "options_applied w" and "Withh32Verifier cb w = Returned w1"
  shows "options_applied w1"
proof -
  have "w1 = w\<lparr>h32Verifier := cb\<rparr>"
    using assms(2) by (simp add: Withh32Verifier_def)
  then show ?thesis using assms(1) by (simp add: options_applied_def)
qed

lemma WithSection_Returned:
  assumes "WithSection sec = Returned opt"
  shows "\<not> (sec <s 0 \<or> 7 <s sec)"
    and "opt = (\<lambda>w. Returned (w\<lparr>Monolithic := False, Section := push_bit 60 (scast sec)\<rparr>))"
proof -
  show n: "\<not> (sec <s 0 \<or> 7 <s sec)"
    using assms unfolding WithSection_def by (simp split: if_splits)
  show "opt = (\<lambda>w. Returned (w\<lparr>Monolithic := False, Section := push_bit 60 (scast sec)\<rparr>))"
    using assms n unfolding WithSection_def by simp
qed

lemma WithStep_Returned:
  assumes "WithStep step floor = Returned opt"
  shows "step \<in> set allowed_steps"
    and "floor = 0 \<or> \<not> floor <s 0 \<and> \<not> step \<le>s floor"
    and "opt = (\<lambda>w.
        if Step w \<noteq> 1 then Panicked SecondWithStep
        else let w1 = w\<lparr>Step := step\<rparr>
             in if 2 \<le>s floor then Returned (w1\<lparr>Floor := floor, Flags := Flags w1 OR 2\<rparr>)
                else Returned w1)"
proof -
  show a: "step \<in> set allowed_steps"
    using assms unfolding WithStep_def by (simp split: if_splits)
  show b: "floor = 0 \<or> \<not> floor <s 0 \<and> \<not> step \<le>s floor"
    using assms a unfolding WithStep_def by (simp split: if_splits)
  have c: "\<not> (floor \<noteq> 0 \<and> (floor <s 0 \<or> step \<le>s floor))" using b by blast
  show "opt = (\<lambda>w.
        if Step w \<noteq> 1 then Panicked SecondWithStep
        else let w1 = w\<lparr>Step := step\<rparr>
             in if 2 \<le>s floor then Returned (w1\<lparr>Floor := floor, Flags := Flags w1 OR 2\<rparr>)
                else Returned w1)"
    using assms unfolding WithStep_def if_not_P [OF c] using a by simp
qed

lemma WithObfuscation_Returned:
  assumes "WithObfuscation seed = Returned opt"
  shows "opt = (\<lambda>w. Returned
        (w\<lparr>Obfuscation := True, ObfuscationMask := obfuscation_mask seed,
           Flags := Flags w OR 1\<rparr>))"
  using assms unfolding WithObfuscation_def by (simp split: if_splits)

lemma opt_case_section:
  assumes "options_applied w" and "WithSection sec = Returned opt" and "opt w = Returned w1"
  shows "options_applied w1"
proof -
  note r = WithSection_Returned [OF assms(2)]
  have "w1 = w\<lparr>Monolithic := False, Section := push_bit 60 (scast sec)\<rparr>"
    using assms(3) unfolding r(2) by simp
  then show ?thesis
    using assms(1) section_tag_word [OF r(1)] by (simp add: options_applied_def L60Mask_mask)
qed

lemma opt_case_step:
  assumes "options_applied w" and "WithStep step floor = Returned opt" and "opt w = Returned w1"
  shows "options_applied w1"
proof -
  note r = WithStep_Returned [OF assms(2)]
  have one: "Step w = 1" using assms(3) unfolding r(3) by (simp split: if_splits)
  have f01: "Flags w = 0 \<or> Flags w = 1" and f0: "Floor w = 0"
    using assms(1) one unfolding options_applied_def by auto
  show ?thesis
  proof (cases "2 \<le>s floor")
    case True
    have w1: "w1 = w\<lparr>Step := step, Floor := floor, Flags := Flags w OR 2\<rparr>"
      using assms(3) one True unfolding r(3) by (simp add: Let_def)
    have a: "2 \<le> sint floor" using True by (simp add: word_sle_eq)
    have "floor \<noteq> 0" using a by auto
    then have b: "sint floor < sint step" using r(2) by (simp add: word_sle_eq)
    have c: "Flags w OR 2 = 2 \<or> Flags w OR 2 = 3" using f01 by auto
    have d: "Obfuscation w \<longleftrightarrow> Flags w OR 2 = 3"
      using f01 assms(1) unfolding options_applied_def by auto
    have e: "Flags w OR 2 \<noteq> 0" "Flags w OR 2 \<noteq> 1" using f01 by auto
    have "Monolithic w \<longrightarrow> Section w = 0" "Section w AND L60Mask = 0" "0 \<le> sint (Section w)"
      using assms(1) unfolding options_applied_def by simp_all
    then show ?thesis
      unfolding options_applied_def w1 using a b c d e r(1) by auto
  next
    case False
    have w1: "w1 = w\<lparr>Step := step\<rparr>"
      using assms(3) one False unfolding r(3) by (simp add: Let_def)
    have g: "Flags w \<noteq> 2" "Flags w \<noteq> 3" using f01 by auto
    show ?thesis
      using assms(1) r(1) f0 g unfolding options_applied_def w1 by simp
  qed
qed

lemma opt_case_obfuscation:
  assumes "options_applied w" and "WithObfuscation seed = Returned opt" and "opt w = Returned w1"
  shows "options_applied w1"
proof -
  note r = WithObfuscation_Returned [OF assms(2)]
  have w1: "w1 = w\<lparr>Obfuscation := True, ObfuscationMask := obfuscation_mask seed,
           Flags := Flags w OR 1\<rparr>"
    using assms(3) unfolding r by simp
  have fl: "Flags w = 0 \<or> Flags w = 1 \<or> Flags w = 2 \<or> Flags w = 3"
    using assms(1) unfolding options_applied_def by simp
  have p: "Flags w = 2 \<or> Flags w = 3 \<longrightarrow> 2 \<le> sint (Floor w) \<and> sint (Floor w) < sint (Step w)"
    and q: "Flags w = 0 \<or> Flags w = 1 \<longrightarrow> Floor w = 0"
    and s: "Step w \<in> set allowed_steps" "Monolithic w \<longrightarrow> Section w = 0"
       "Section w AND L60Mask = 0" "0 \<le> sint (Section w)"
    using assms(1) unfolding options_applied_def by simp_all
  from fl consider "Flags w = 0 \<or> Flags w = 1" | "Flags w = 2 \<or> Flags w = 3" by blast
  then show ?thesis
  proof cases
    case 1
    then have "Flags w OR 1 = 1" by auto
    then show ?thesis unfolding options_applied_def w1 using q s 1 by simp
  next
    case 2
    then have "Flags w OR 1 = 3" by auto
    then show ?thesis unfolding options_applied_def w1 using p s 2 by simp
  qed
qed

lemma option_keeps_invariant:
  assumes "made_by_options opt" and "options_applied w" and "opt w = Returned w1"
  shows "options_applied w1"
  using assms(1)
proof (cases rule: made_by_options.cases)
  case (1 cb)
  then show ?thesis using assms(2,3) opt_case_verifier [of w cb w1] by simp
next
  case (2 sec)
  then show ?thesis using assms(2,3) opt_case_section [of w sec opt w1] by simp
next
  case (3 step floor)
  then show ?thesis using assms(2,3) opt_case_step [of w step floor opt w1] by simp
next
  case (4 seed)
  then show ?thesis using assms(2,3) opt_case_obfuscation [of w seed opt w1] by simp
qed

lemma apply_opts_keeps_invariant:
  assumes "\<forall>opt\<in>set opts. made_by_options opt" and "options_applied w"
    and "apply_opts opts w = Returned w1"
  shows "options_applied w1"
  using assms
proof (induction opts arbitrary: w)
  case Nil
  then show ?case by simp
next
  case (Cons opt opts)
  from Cons.prems(3) obtain w2 where o: "opt w = Returned w2" and r: "apply_opts opts w2 = Returned w1"
    by (cases "opt w") simp_all
  have "made_by_options opt" using Cons.prems(1) by simp
  then have "options_applied w2"
    using Cons.prems(2) o by (rule option_keeps_invariant)
  moreover have "\<forall>opt\<in>set opts. made_by_options opt" using Cons.prems(1) by simp
  ultimately show ?case using r Cons.IH [of w2] by blast
qed

lemma or_and_absorb:
  fixes x m :: int64
  shows "(x OR m) AND m = m"
  by (rule bit_word_eqI) (auto simp add: bit_simps)

lemma NewWUID_configured:
  assumes "\<forall>opt\<in>set opts. made_by_options opt" and "NewWUID name opts = Returned w"
  shows "configured w"
proof -
  have z: "options_applied (zero_WUID name :: 'a WUID)"
    by (simp add: options_applied_def zero_WUID_def allowed_steps_def)
  obtain w0 where a: "apply_opts opts (zero_WUID name) = Returned (w0 :: 'a WUID)"
    using assms(2) unfolding NewWUID_def by (cases "apply_opts opts (zero_WUID name :: 'a WUID)") simp_all
  have i: "options_applied w0"
    using assms(1) z a by (rule apply_opts_keeps_invariant)
  show ?thesis
  proof (cases "\<not> Obfuscation w0 \<or> Floor w0 = 0")
    case True
    have e: "w = w0" using assms(2) True unfolding NewWUID_def a by simp
    have "Flags w0 \<noteq> 3" using True i unfolding options_applied_def by auto
    then show ?thesis using i unfolding e configured_def options_applied_def by simp
  next
    case False
    have e: "w = w0\<lparr>ObfuscationMask := ObfuscationMask w0 OR (Step w0 - 1)\<rparr>"
      using assms(2) False unfolding NewWUID_def a by simp
    show ?thesis using i unfolding e configured_def options_applied_def
      by (simp add: or_and_absorb)
  qed
qed

lemma WithSection36_Returned:
  assumes "WithSection36 sec = Returned opt"
  shows "\<not> (sec <s 0 \<or> 7 <s sec)"
    and "opt = (\<lambda>w. Returned (w\<lparr>Monolithic36 := False, Section36 := push_bit 60 (scast sec)\<rparr>))"
proof -
  show n: "\<not> (sec <s 0 \<or> 7 <s sec)"
    using assms unfolding WithSection36_def by (simp split: if_splits)
  show "opt = (\<lambda>w. Returned (w\<lparr>Monolithic36 := False, Section36 := push_bit 60 (scast sec)\<rparr>))"
    using assms n unfolding WithSection36_def by simp
qed

lemma WithStep36_Returned:
  assumes "WithStep36 step floor = Returned opt"
  shows "step \<in> set allowed_steps"
    and "floor = 0 \<or> \<not> floor <s 0 \<and> \<not> step \<le>s floor"
    and "opt = (\<lambda>w. Returned (w\<lparr>Step36 := step, Floor36 := floor\<rparr>))"
proof -
  show a: "step \<in> set allowed_steps"
    using assms unfolding WithStep36_def by (simp split: if_splits)
  show b: "floor = 0 \<or> \<not> floor <s 0 \<and> \<not> step \<le>s floor"
    using assms a unfolding WithStep36_def by (simp split: if_splits)
  have c: "\<not> (floor \<noteq> 0 \<and> (floor <s 0 \<or> step \<le>s floor))" using b by blast
  show "opt = (\<lambda>w. Returned (w\<lparr>Step36 := step, Floor36 := floor\<rparr>))"
    using assms unfolding WithStep36_def if_not_P [OF c] using a by simp
qed

lemma option36_keeps_invariant:
  assumes "made_by_options36 opt" and "configured36 w" and "opt w = Returned w1"
  shows "configured36 w1"
  using assms(1)
proof (cases rule: made_by_options36.cases)
  case (1 cb)
  then have "w1 = w\<lparr>H28Verifier := cb\<rparr>"
    using assms(3) by (simp add: WithH28Verifier_def)
  then show ?thesis using assms(2) by (simp add: configured36_def)
next
  case (2 sec)
  note r = WithSection36_Returned [OF 2]
  have "w1 = w\<lparr>Monolithic36 := False, Section36 := push_bit 60 (scast sec)\<rparr>"
    using assms(3) unfolding r(2) by simp
  then show ?thesis
    using assms(2) section_tag_word [OF r(1)] by (simp add: configured36_def SectionMask_mask)
next
  case (3 step floor)
  note r = WithStep36_Returned [OF 3]
  have w1: "w1 = w\<lparr>Step36 := step, Floor36 := floor\<rparr>"
    using assms(3) unfolding r(3) by simp
  have "floor = 0 \<or> 1 \<le> sint floor \<and> sint floor < sint step"
  proof (cases "floor = 0")
    case True
    then show ?thesis by simp
  next
    case False
    then have "0 \<le> sint floor" "sint floor < sint step"
      using r(2) by (simp_all add: word_sle_eq word_sless_alt)
    moreover have "sint floor \<noteq> 0" using False by (simp add: signed_eq_0_iff)
    ultimately show ?thesis by simp
  qed
  then show ?thesis using assms(2) r(1) unfolding w1 configured36_def by simp
qed

lemma apply_opts36_keeps_invariant:
  assumes "\<forall>opt\<in>set opts. made_by_options36 opt" and "configured36 w"
    and "apply_opts36 opts w = Returned w1"
  shows "configured36 w1"
  using assms
proof (induction opts arbitrary: w)
  case Nil
  then show ?case by simp
next
  case (Cons opt opts)
  from Cons.prems(3) obtain w2 where o: "opt w = Returned w2" and r: "apply_opts36 opts w2 = Returned w1"
    by (cases "opt w") simp_all
  have "made_by_options36 opt" using Cons.prems(1) by simp
  then have "configured36 w2"
    using Cons.prems(2) o by (rule option36_keeps_invariant)
  moreover have "\<forall>opt\<in>set opts. made_by_options36 opt" using Cons.prems(1) by simp
  ultimately show ?case using r Cons.IH [of w2] by blast
qed

lemma NewWUID36_configured:
  assumes "\<forall>opt\<in>set opts. made_by_options36 opt" and "NewWUID36 name opts = Returned w"
  shows "configured36 w"
proof -
  have z: "configured36 (zero_WUID36 name :: 'a WUID36)"
    by (simp add: configured36_def zero_WUID36_def allowed_steps_def)
  show ?thesis
    using assms(1) z assms(2) [unfolded NewWUID36_def] by (rule apply_opts36_keeps_invariant)
qed

section \<open>Reset, then Next\<close>

lemma quo_4_2: "quo (4 :: int64) 2 = 2" "quo (4 :: int64) 3 = 1"
  by (simp_all add: quo_def signed_divide_int_def)

lemma first_word_after_Reset:
  assumes c: "configured w" and pos: "0 < sint h"
    and bound: "sint h \<le> (if Monolithic w then 0x1FFFFF else 0xFFFFFF)"
    and plain: "Obfuscation w \<longrightarrow> Monolithic w"
  shows "\<exists>w1 r w2. Reset w (push_bit 32 h) = (Returned (), w1) \<and>
      N w1 = push_bit 32 h OR Section w \<and>
      Next w1 = ((Returned r, False), w2) \<and>
      signed_drop_bit 32 r = h OR signed_drop_bit 32 (Section w)"
proof -
  have step: "Step w \<in> set allowed_steps"
    and flags: "Flags w = 0 \<or> Flags w = 1 \<or> Flags w = 2 \<or> Flags w = 3"
    and floor: "Flags w = 2 \<or> Flags w = 3 \<longrightarrow> 2 \<le> sint (Floor w) \<and> sint (Floor w) < sint (Step w)"
    and ones: "Flags w = 3 \<longrightarrow> ObfuscationMask w AND (Step w - 1) = Step w - 1"
    and obf: "Obfuscation w \<longleftrightarrow> Flags w = 1 \<or> Flags w = 3"
    and mono: "Monolithic w \<longrightarrow> Section w = 0"
    and sect: "Section w AND L60Mask = 0" "0 \<le> sint (Section w)"
    using c unfolding configured_def by simp_all
  have sect': "\<not> Monolithic w \<longrightarrow> Section w AND L60Mask = 0 \<and> 0 \<le> sint (Section w)"
    using sect by simp
  have fits: "Flags w = 1 \<or> Flags w = 3 \<longrightarrow> sint h \<le> 0x1FFFFF"
    using obf plain bound by auto
  have uh: "uint h = sint h" using pos by (intro uint_of_nonneg) simp
  have h24: "uint h < 2 ^ 24" using uh bound by (simp split: if_splits)
  obtain w1 r w2 where reset: "Reset w (push_bit 32 h) = (Returned (), w1)"
    and word: "N w1 = (if Monolithic w then push_bit 32 h else (push_bit 32 h AND L60Mask) OR Section w)"
    and nx: "Next w1 = ((Returned r, False), w2)"
    and high: "(if Monolithic w then signed_drop_bit 32 r else signed_drop_bit 32 r AND 0xFFFFFF) = h"
    and whole: "Flags w = 0 \<or> Flags w = 2 \<longrightarrow> signed_drop_bit 32 r = drop_bit 32 (N w1)"
    using Next_after_Reset_word [OF step flags floor ones sect' pos bound fits] by blast
  have "N w1 = push_bit 32 h OR Section w \<and>
      signed_drop_bit 32 r = h OR signed_drop_bit 32 (Section w)"
  proof (cases "Monolithic w")
    case True
    then have "Section w = 0" using mono by simp
    then show ?thesis using True word high by simp
  next
    case False
    have "push_bit 32 h AND L60Mask = push_bit 32 h"
      unfolding L60Mask_mask using h24 by (rule packed_under_mask60) simp
    then have n: "N w1 = push_bit 32 h OR Section w" using False word by simp
    have "Flags w = 0 \<or> Flags w = 2" using False plain obf flags by auto
    then have "signed_drop_bit 32 r = drop_bit 32 (push_bit 32 h OR Section w)"
      using whole n by simp
    also have "\<dots> = h OR drop_bit 32 (Section w)"
      using h24 by (rule high_of_packed) simp
    also have "drop_bit 32 (Section w) = signed_drop_bit 32 (Section w)"
      using sect(2) by (simp only: signed_drop_nonneg)
    finally show ?thesis using n by simp
  qed
  then show ?thesis using reset nx by blast
qed

lemma first_word_after_Reset36:
  assumes c: "configured36 w" and pos: "0 < sint h"
    and bound: "sint h \<le> (if Monolithic36 w then 0x7FFFFFF else 0xFFFFFF)"
  shows "\<exists>w1 r w2. Reset36 w (push_bit 36 h) = (Returned (), w1) \<and>
      N36 w1 = push_bit 36 h OR Section36 w \<and>
      Next36 w1 = ((Returned r, False), w2) \<and>
      signed_drop_bit 36 r = h OR signed_drop_bit 36 (Section36 w)"
proof -
  have step: "Step36 w \<in> set allowed_steps"
    and floor: "Floor36 w = 0 \<or> 1 \<le> sint (Floor36 w) \<and> sint (Floor36 w) < sint (Step36 w)"
    and mono: "Monolithic36 w \<longrightarrow> Section36 w = 0"
    and sect: "Section36 w AND SectionMask = 0" "0 \<le> sint (Section36 w)"
    using c unfolding configured36_def by simp_all
  have sect': "\<not> Monolithic36 w \<longrightarrow> Section36 w AND SectionMask = 0 \<and> 0 \<le> sint (Section36 w)"
    using sect by simp
  have uh: "uint h = sint h" using pos by (intro uint_of_nonneg) simp
  have h27: "uint h < 2 ^ 27" using uh bound by (simp split: if_splits)
  obtain w1 r w2 where reset: "Reset36 w (push_bit 36 h) = (Returned (), w1)"
    and word: "N36 w1 = (if Monolithic36 w then push_bit 36 h
                else (push_bit 36 h AND SectionMask) OR Section36 w)"
    and nx: "Next36 w1 = ((Returned r, False), w2)"
    and whole: "signed_drop_bit 36 r = drop_bit 36 (N36 w1)"
    using Next36_after_Reset36_word [OF step floor sect' pos bound] by blast
  have n: "N36 w1 = push_bit 36 h OR Section36 w"
  proof (cases "Monolithic36 w")
    case True
    then have "Section36 w = 0" using mono by simp
    then show ?thesis using True word by simp
  next
    case False
    then have "uint h < 2 ^ 24" using uh bound by simp
    then have "push_bit 36 h AND SectionMask = push_bit 36 h"
      unfolding SectionMask_mask by (rule packed_under_mask60) simp
    then show ?thesis using False word by simp
  qed
  have "signed_drop_bit 36 r = drop_bit 36 (push_bit 36 h OR Section36 w)"
    using whole n by simp
  also have "\<dots> = h OR drop_bit 36 (Section36 w)"
    using h27 by (rule high_of_packed) simp
  also have "drop_bit 36 (Section36 w) = signed_drop_bit 36 (Section36 w)"
    using sect(2) by (simp only: signed_drop_nonneg)
  finally show ?thesis using reset n nx by blast
qed

text \<open>
  C7, as stated, fails: \<open>Reset\<close> does not shift its argument into the high segment.
  \<open>Reset(7)\<close> on a generator made without options makes the word \<open>7\<close>, the next
  \<open>Next\<close> returns \<open>8\<close>, and the high-segment bits of \<open>8\<close> are \<open>0\<close>, not \<open>7\<close>, in both
  variants; it is the caller that shifts (\<open>Reset(h32 << 32)\<close> in the Redis loader).
  And with section 1, after \<open>Reset(7 << 32)\<close> the upper 32 bits of the returned value
  are \<open>0x10000007\<close>, the segment with the section tag above it.
\<close>

theorem Reset_takes_the_packed_word:
  "Verifyh32 (zero_WUID ''alpha'' :: unit WUID) 7 = None \<and>
   Reset (zero_WUID ''alpha'' :: unit WUID) 7
     = (Returned (), (zero_WUID ''alpha'')\<lparr>N := 7\<rparr>) \<and>
   Next ((zero_WUID ''alpha'' :: unit WUID)\<lparr>N := 7\<rparr>)
     = ((Returned 8, False), (zero_WUID ''alpha'')\<lparr>N := 8\<rparr>) \<and>
   signed_drop_bit 32 (8 :: int64) = 0 \<and>
   VerifyH28 (zero_WUID36 ''alpha'' :: unit WUID36) 7 = None \<and>
   Reset36 (zero_WUID36 ''alpha'' :: unit WUID36) 7
     = (Returned (), (zero_WUID36 ''alpha'')\<lparr>N36 := 7\<rparr>) \<and>
   Next36 ((zero_WUID36 ''alpha'' :: unit WUID36)\<lparr>N36 := 7\<rparr>)
     = ((Returned 8, False), (zero_WUID36 ''alpha'')\<lparr>N36 := 8\<rparr>) \<and>
   signed_drop_bit 36 (8 :: int64) = 0 \<and>
   NewWUID_sectioned ''alpha'' 1
     = Returned ((zero_WUID ''alpha'' :: unit WUID)\<lparr>Monolithic := False, Section := 0x1000000000000000\<rparr>) \<and>
   Verifyh32 ((zero_WUID ''alpha'' :: unit WUID)\<lparr>Monolithic := False, Section := 0x1000000000000000\<rparr>) 7
     = None \<and>
   Reset ((zero_WUID ''alpha'' :: unit WUID)\<lparr>Monolithic := False, Section := 0x1000000000000000\<rparr>)
       (push_bit 32 7)
     = (Returned (), (zero_WUID ''alpha'')\<lparr>Monolithic := False, Section := 0x1000000000000000,
         N := 0x1000000700000000\<rparr>) \<and>
   Next ((zero_WUID ''alpha'' :: unit WUID)\<lparr>Monolithic := False, Section := 0x1000000000000000,
         N := 0x1000000700000000\<rparr>)
     = ((Returned 0x1000000700000001, False), (zero_WUID ''alpha'')\<lparr>Monolithic := False,
         Section := 0x1000000000000000, N := 0x1000000700000001\<rparr>) \<and>
   signed_drop_bit 32 (0x1000000700000001 :: int64) = 0x10000007"
  by (simp add: sectioned_generator Verifyh32_def VerifyH28_def Reset_def Reset36_def Next_def
      Next36_def Next_rest_def Next36_rest_def AddInt64_def AddInt64_36_def
      transform_def zero_WUID_def zero_WUID36_def consts32 consts36 L60Mask_def
      word_sle_eq word_sless_alt Let_def)

text \<open>
  C7, amended: let the generator be configured as \<open>NewWUID\<close> and its options leave
  it, and let \<open>h\<close> be positive and at most the bound that \<open>Verifyh32\<close> (\<open>VerifyH28\<close>)
  checks: \<open>0x1FFFFF\<close> without a section and \<open>0xFFFFFF\<close> with one in the 32/32
  variant, \<open>0x7FFFFFF\<close> and \<open>0xFFFFFF\<close> in the 28/36 variant. In the 32/32 variant
  obfuscation together with a section is left out. Then \<open>Reset(h << 32)\<close>
  (\<open>Reset(h << 36)\<close>) returns and the counter word is \<open>h << 32 | Section\<close>
  (\<open>h << 36 | Section\<close>), where \<open>Section\<close> is the section tag at bit 60, or 0 without a
  section; the next \<open>Next\<close> returns a value, without panicking and without starting a
  renewal, and the bits of that value above the low segment are \<open>h\<close> with those of
  the section tag over it, so \<open>h\<close> itself without a section. And every value that
  \<open>Next\<close> returns is a multiple of the floor, when the floor is at least 2 (in the
  32/32 variant for a generator so configured, or any with the quantising \<open>Flags\<close> 2
  or 3 that \<open>WithStep\<close> sets along with such a floor).
\<close>

theorem first_value_after_Reset:
  "(configured w \<and> 0 < sint h \<and> sint h \<le> (if Monolithic w then 0x1FFFFF else 0xFFFFFF) \<and>
    (Obfuscation w \<longrightarrow> Monolithic w) \<longrightarrow>
      (\<exists>w1 r w2. Reset w (push_bit 32 h) = (Returned (), w1) \<and>
         N w1 = push_bit 32 h OR Section w \<and>
         Next w1 = ((Returned r, False), w2) \<and>
         signed_drop_bit 32 r = h OR signed_drop_bit 32 (Section w))) \<and>
   ((configured w \<or> Flags w = 2 \<or> Flags w = 3) \<and> 2 \<le> sint (Floor w) \<and>
    fst (fst (Next w)) = Returned v
      \<longrightarrow> sint (Floor w) dvd sint v) \<and>
   (configured36 w' \<and> 0 < sint h' \<and>
    sint h' \<le> (if Monolithic36 w' then 0x7FFFFFF else 0xFFFFFF) \<longrightarrow>
      (\<exists>w1 r w2. Reset36 w' (push_bit 36 h') = (Returned (), w1) \<and>
         N36 w1 = push_bit 36 h' OR Section36 w' \<and>
         Next36 w1 = ((Returned r, False), w2) \<and>
         signed_drop_bit 36 r = h' OR signed_drop_bit 36 (Section36 w'))) \<and>
   (2 \<le> sint (Floor36 w') \<and> fst (fst (Next36 w')) = Returned v'
      \<longrightarrow> sint (Floor36 w') dvd sint v')"
proof (intro conjI impI)
  assume a: "configured w \<and> 0 < sint h \<and>
    sint h \<le> (if Monolithic w then 0x1FFFFF else 0xFFFFFF) \<and> (Obfuscation w \<longrightarrow> Monolithic w)"
  show "\<exists>w1 r w2. Reset w (push_bit 32 h) = (Returned (), w1) \<and>
         N w1 = push_bit 32 h OR Section w \<and>
         Next w1 = ((Returned r, False), w2) \<and>
         signed_drop_bit 32 r = h OR signed_drop_bit 32 (Section w)"
    using a by (intro first_word_after_Reset) simp_all
next
  assume a: "(configured w \<or> Flags w = 2 \<or> Flags w = 3) \<and> 2 \<le> sint (Floor w) \<and>
    fst (fst (Next w)) = Returned v"
  then have "Floor w \<noteq> 0" by auto
  then have "configured w \<longrightarrow> Flags w = 2 \<or> Flags w = 3"
    unfolding configured_def by blast
  then have "Flags w = 2 \<or> Flags w = 3" using a by blast
  then show "sint (Floor w) dvd sint v"
    using a Next_multiple_of_floor [of w v] by blast
next
  assume a: "configured36 w' \<and> 0 < sint h' \<and>
    sint h' \<le> (if Monolithic36 w' then 0x7FFFFFF else 0xFFFFFF)"
  show "\<exists>w1 r w2. Reset36 w' (push_bit 36 h') = (Returned (), w1) \<and>
         N36 w1 = push_bit 36 h' OR Section36 w' \<and>
         Next36 w1 = ((Returned r, False), w2) \<and>
         signed_drop_bit 36 r = h' OR signed_drop_bit 36 (Section36 w')"
    using a by (intro first_word_after_Reset36) simp_all
next
  assume "2 \<le> sint (Floor36 w') \<and> fst (fst (Next36 w')) = Returned v'"
  then show "sint (Floor36 w') dvd sint v'"
    using Next36_multiple_of_floor [of w' v'] by blast
qed

text \<open>
  C7 at concrete generators: section 1, step 4 and floor 2 in the 32/32 variant,
  section 1, step 4 and floor 3 in the 28/36 variant; the new high segment is 7. The
  words are \<open>0x1000000700000000\<close> and \<open>0x1000007000000000\<close>, the upper bits of the next
  values \<open>0x10000007\<close> and \<open>0x1000007\<close>. From the zero word \<open>Next\<close> returns 4, a
  multiple of 2, and 3, a multiple of 3.
\<close>

theorem first_value_after_Reset_witness:
  "configured ((zero_WUID ''alpha'' :: unit WUID)\<lparr>Monolithic := False,
       Section := 0x1000000000000000, Step := 4, Floor := 2, Flags := 2\<rparr>) \<and>
   (\<exists>w1 r w2. Reset ((zero_WUID ''alpha'' :: unit WUID)\<lparr>Monolithic := False,
          Section := 0x1000000000000000, Step := 4, Floor := 2, Flags := 2\<rparr>) (push_bit 32 7)
        = (Returned (), w1) \<and>
      N w1 = 0x1000000700000000 \<and>
      Next w1 = ((Returned r, False), w2) \<and> signed_drop_bit 32 r = 0x10000007) \<and>
   fst (fst (Next ((zero_WUID ''alpha'' :: unit WUID)\<lparr>Monolithic := False,
       Section := 0x1000000000000000, Step := 4, Floor := 2, Flags := 2\<rparr>))) = Returned 4 \<and>
   (2 :: int) dvd sint (4 :: int64) \<and>
   configured36 ((zero_WUID36 ''alpha'' :: unit WUID36)\<lparr>Monolithic36 := False,
       Section36 := 0x1000000000000000, Step36 := 4, Floor36 := 3\<rparr>) \<and>
   (\<exists>w1 r w2. Reset36 ((zero_WUID36 ''alpha'' :: unit WUID36)\<lparr>Monolithic36 := False,
          Section36 := 0x1000000000000000, Step36 := 4, Floor36 := 3\<rparr>) (push_bit 36 7)
        = (Returned (), w1) \<and>
      N36 w1 = 0x1000007000000000 \<and>
      Next36 w1 = ((Returned r, False), w2) \<and> signed_drop_bit 36 r = 0x1000007) \<and>
   fst (fst (Next36 ((zero_WUID36 ''alpha'' :: unit WUID36)\<lparr>Monolithic36 := False,
       Section36 := 0x1000000000000000, Step36 := 4, Floor36 := 3\<rparr>))) = Returned 3 \<and>
   (3 :: int) dvd sint (3 :: int64)"
proof -
  let ?w = "(zero_WUID ''alpha'' :: unit WUID)\<lparr>Monolithic := False,
       Section := 0x1000000000000000, Step := 4, Floor := 2, Flags := 2\<rparr>"
  let ?w' = "(zero_WUID36 ''alpha'' :: unit WUID36)\<lparr>Monolithic36 := False,
       Section36 := 0x1000000000000000, Step36 := 4, Floor36 := 3\<rparr>"
  have c: "configured ?w"
    by (simp add: configured_def zero_WUID_def allowed_steps_def L60Mask_def)
  have c': "configured36 ?w'"
    by (simp add: configured36_def zero_WUID36_def allowed_steps_def SectionMask_def)
  have n: "fst (fst (Next ?w)) = Returned 4"
    by (simp add: Next_def Next_rest_def AddInt64_def transform_def zero_WUID_def consts32
        word_sle_eq Let_def quo_4_2)
  have n': "fst (fst (Next36 ?w')) = Returned 3"
    by (simp add: Next36_def Next36_rest_def AddInt64_36_def zero_WUID36_def consts36
        word_sle_eq Let_def quo_4_2)
  have g: "\<not> Obfuscation (zero_WUID ''alpha'' :: unit WUID)"
    by (simp add: zero_WUID_def)
  have k: "push_bit 32 7 OR (0x1000000000000000 :: int64) = 0x1000000700000000"
    "7 OR signed_drop_bit 32 (0x1000000000000000 :: int64) = 0x10000007"
    "push_bit 36 7 OR (0x1000000000000000 :: int64) = 0x1000007000000000"
    "7 OR signed_drop_bit 36 (0x1000000000000000 :: int64) = 0x1000007"
    by simp_all
  note t = first_value_after_Reset [where w = "?w" and h = 7 and v = 4
      and w' = "?w'" and h' = 7 and v' = 3]
  from t c have 1: "\<exists>w1 r w2. Reset ?w (push_bit 32 7) = (Returned (), w1) \<and>
      N w1 = 0x1000000700000000 \<and>
      Next w1 = ((Returned r, False), w2) \<and> signed_drop_bit 32 r = 0x10000007"
    by (simp add: g k)
  from t n have 2: "(2 :: int) dvd sint (4 :: int64)"
    by simp
  from t c' have 3: "\<exists>w1 r w2. Reset36 ?w' (push_bit 36 7) = (Returned (), w1) \<and>
      N36 w1 = 0x1000007000000000 \<and>
      Next36 w1 = ((Returned r, False), w2) \<and> signed_drop_bit 36 r = 0x1000007"
    by (simp add: k)
  from t n' have 4: "(3 :: int) dvd sint (3 :: int64)"
    by simp
  from c 1 n 2 c' 3 n' 4 show ?thesis by blast
qed

end
